theory Spec2Isabelle
  imports Main "HOL-Library.Word"
begin

section \<open>Data model (lib/puz.ts and the Crossword component)\<close>

text \<open>
  JavaScript strings are modelled as \<open>string\<close>, a list of 8-bit code units. The
  program builds its strings from single bytes of the file and from keyboard input;
  \<open>String.prototype.toUpperCase\<close> is a function of the platform and is taken as the
  parameter \<open>toUpperCase\<close> wherever the source calls it, so that no theorem depends
  on a table of case mappings. Numbers are natural numbers: every number of the
  program is a byte, a 16-bit count, an array index or a team id counted from 1.
\<close>

type_synonym byte = "8 word"

record Cell =
  row :: nat
  col :: nat
  index :: nat
  isBlock :: bool
  solution :: string

record ClueEntry =
  number :: nat
  clue :: string
  cells :: "Cell list"

datatype ClueOrder = AcrossDown | DownAcross | InterleavedAD | InterleavedDA

record ParsedPuz =
  width :: nat
  height :: nat
  title :: string
  author :: string
  copyright :: string
  grid :: "Cell list"
  cluesRaw :: "string list"
  across :: "ClueEntry list"
  down :: "ClueEntry list"
  clueOrder :: ClueOrder

text \<open>
  The local type \<open>Start\<close> of \<open>parsePuz\<close>; its field \<open>number\<close> is \<open>startNumber\<close>
  here, since \<open>ClueEntry\<close> has a field of that name.
\<close>

record Start =
  startNumber :: nat
  startsAcross :: bool
  startsDown :: bool
  acrossIndex :: "nat option"
  downIndex :: "nat option"

text \<open>
  What the program throws. \<open>RangeError\<close> is raised by \<open>DataView\<close> when a header
  read lies outside the buffer; the next three are the \<open>Error\<close>s of \<open>parsePuz\<close>,
  "missing width/height", "truncated grid data" and "unterminated string";
  \<open>TypeError\<close> is raised when a property of \<open>undefined\<close> is read, as
  \<open>arr[norm].cells\<close> would be for an index outside \<open>arr\<close>.
\<close>

datatype error = RangeError | MissingDimensions | TruncatedGrid | UnterminatedString | TypeError

section \<open>The decoder \<open>parsePuz\<close>\<close>

definition getUint8 :: "byte list \<Rightarrow> nat \<Rightarrow> error + nat" where
  "getUint8 bytes off =
     (if off < length bytes then Inr (unat (bytes ! off)) else Inl RangeError)"

text \<open>\<open>dv.getUint16(off, true)\<close>: two bytes, little-endian.\<close>

definition getUint16LE :: "byte list \<Rightarrow> nat \<Rightarrow> error + nat" where
  "getUint16LE bytes off =
     (if off + 1 < length bytes
      then Inr (unat (bytes ! off) + 256 * unat (bytes ! (off + 1)))
      else Inl RangeError)"

text \<open>\<open>bytes.slice(a, b)\<close> for \<open>a \<le> b\<close>.\<close>

definition jsSlice :: "'a list \<Rightarrow> nat \<Rightarrow> nat \<Rightarrow> 'a list" where
  "jsSlice xs a b = take (b - a) (drop a xs)"

definition fromCharCode :: "nat \<Rightarrow> string" where
  "fromCharCode n = [char_of n]"

text \<open>
  \<open>new TextDecoder("latin1").decode(slice)\<close>: one code unit per byte. The label
  \<open>latin1\<close> selects windows-1252, which sends a byte outside \<open>0x80, ..., 0x9F\<close> to the
  code unit of the same value and each byte of \<open>0x80, ..., 0x9F\<close> to a code unit of its
  own above \<open>0xFF\<close>; the decoding is one to one and keeps the length. The strings it
  returns are stored and displayed, never inspected, so each is kept as the list of
  bytes it was decoded from: a character of a decoded string stands for the byte, and
  is the code unit itself for every byte outside \<open>0x80, ..., 0x9F\<close>.
\<close>

definition latin1 :: "byte list \<Rightarrow> string" where
  "latin1 bs = map (\<lambda>b. char_of (unat b)) bs"

text \<open>The loop \<open>while (cursor < bytes.length && bytes[cursor] !== 0) cursor++\<close>.\<close>

function scanNul :: "byte list \<Rightarrow> nat \<Rightarrow> nat" where
  "scanNul bytes cursor =
     (if cursor < length bytes \<and> bytes ! cursor \<noteq> 0
      then scanNul bytes (Suc cursor) else cursor)"
  by pat_completeness auto
termination
  by (relation "measure (\<lambda>(bytes, cursor). length bytes - cursor)") auto

declare scanNul.simps [simp del]

text \<open>\<open>readNullTerminated\<close>, with the cursor passed in and returned.\<close>

definition readNullTerminated :: "byte list \<Rightarrow> nat \<Rightarrow> error + (string \<times> nat)" where
  "readNullTerminated bytes cursor =
     (let start = cursor; cursor1 = scanNul bytes cursor in
      if cursor1 \<ge> length bytes then Inl UnterminatedString
      else Inr (latin1 (jsSlice bytes start cursor1), Suc cursor1))"

text \<open>The loop \<open>for (let i = 0; i < numClues; i++) cluesRaw.push(readNullTerminated())\<close>.\<close>

fun readClues :: "byte list \<Rightarrow> nat \<Rightarrow> nat \<Rightarrow> string list \<Rightarrow> error + (string list \<times> nat)" where
  "readClues bytes cursor 0 acc = Inr (acc, cursor)"
| "readClues bytes cursor (Suc n) acc =
     (case readNullTerminated bytes cursor of
        Inl e \<Rightarrow> Inl e
      | Inr (c, cursor1) \<Rightarrow> readClues bytes cursor1 n (acc @ [c]))"

definition mkCell :: "(string \<Rightarrow> string) \<Rightarrow> nat \<Rightarrow> byte list \<Rightarrow> nat \<Rightarrow> Cell" where
  "mkCell toUpperCase w solBytes i =
     (let ch = fromCharCode (unat (solBytes ! i)); blk = (ch = ''.'') in
      \<lparr>row = i div w, col = i mod w, index = i, isBlock = blk,
       solution = (if blk then ''.'' else toUpperCase ch)\<rparr>)"

definition buildGrid :: "(string \<Rightarrow> string) \<Rightarrow> nat \<Rightarrow> byte list \<Rightarrow> nat \<Rightarrow> Cell list" where
  "buildGrid toUpperCase w solBytes gridSize = map (mkCell toUpperCase w solBytes) [0..<gridSize]"

text \<open>
  \<open>isBlockAt\<close>: a position outside the grid is a block. Rows and columns are natural
  numbers, so the tests \<open>r < 0\<close> and \<open>c < 0\<close> of the source have no counterpart; the
  source calls \<open>isBlockAt(r, c - 1)\<close> only behind \<open>c === 0 ||\<close>.
\<close>

definition isBlockAt :: "nat \<Rightarrow> nat \<Rightarrow> Cell list \<Rightarrow> nat \<Rightarrow> nat \<Rightarrow> bool" where
  "isBlockAt w h g r c = (if r \<ge> h \<or> c \<ge> w then True else isBlock (g ! (r * w + c)))"

text \<open>The two loops that collect the cells of an entry.\<close>

function acrossRun :: "nat \<Rightarrow> nat \<Rightarrow> Cell list \<Rightarrow> nat \<Rightarrow> nat \<Rightarrow> Cell list" where
  "acrossRun w h g r cc =
     (if cc < w \<and> \<not> isBlockAt w h g r cc
      then g ! (r * w + cc) # acrossRun w h g r (Suc cc) else [])"
  by pat_completeness auto
termination
  by (relation "measure (\<lambda>(w, h, g, r, cc). w - cc)") auto

declare acrossRun.simps [simp del]

function downRun :: "nat \<Rightarrow> nat \<Rightarrow> Cell list \<Rightarrow> nat \<Rightarrow> nat \<Rightarrow> Cell list" where
  "downRun w h g rr c =
     (if rr < h \<and> \<not> isBlockAt w h g rr c
      then g ! (rr * w + c) # downRun w h g (Suc rr) c else [])"
  by pat_completeness auto
termination
  by (relation "measure (\<lambda>(w, h, g, rr, c). h - rr)") auto

declare downRun.simps [simp del]

text \<open>
  The body of the numbering scan at row \<open>r\<close>, column \<open>c\<close>. The state is
  \<open>(nextNum, across, down, starts)\<close>.
\<close>

type_synonym scanState = "nat \<times> ClueEntry list \<times> ClueEntry list \<times> Start list"

definition scanCell :: "nat \<Rightarrow> nat \<Rightarrow> Cell list \<Rightarrow> nat \<Rightarrow> nat \<Rightarrow> scanState \<Rightarrow> scanState" where
  "scanCell w h g r c st =
     (case st of (nextNum, acr, dwn, starts) \<Rightarrow>
        let idx = r * w + c in
        if isBlock (g ! idx) then st
        else
          let sa = (c = 0 \<or> isBlockAt w h g r (c - 1));
              sd = (r = 0 \<or> isBlockAt w h g (r - 1) c)
          in if \<not> sa \<and> \<not> sd then st
             else
               let num = nextNum;
                   acr1 = (if sa then acr @ [\<lparr>number = num, clue = [], cells = acrossRun w h g r c\<rparr>]
                           else acr);
                   dwn1 = (if sd then dwn @ [\<lparr>number = num, clue = [], cells = downRun w h g r c\<rparr>]
                           else dwn);
                   s = \<lparr>startNumber = num, startsAcross = sa, startsDown = sd,
                        acrossIndex = (if sa then Some (length acr) else None),
                        downIndex = (if sd then Some (length dwn) else None)\<rparr>
               in (Suc nextNum, acr1, dwn1, starts @ [s]))"

definition scanRow :: "nat \<Rightarrow> nat \<Rightarrow> Cell list \<Rightarrow> nat \<Rightarrow> scanState \<Rightarrow> scanState" where
  "scanRow w h g r st = fold (scanCell w h g r) [0..<w] st"

definition scanGrid :: "nat \<Rightarrow> nat \<Rightarrow> Cell list \<Rightarrow> scanState" where
  "scanGrid w h g = fold (scanRow w h g) [0..<h] (1, [], [], [])"

text \<open>
  Clue assignment. \<open>takeClue\<close> is the closure \<open>take\<close>: the next raw clue, or the
  empty string once \<open>cluesRaw\<close> is used up. The state of the assignment is
  \<open>(clueIdx, across, down)\<close>.
\<close>

type_synonym clueState = "nat \<times> ClueEntry list \<times> ClueEntry list"

definition takeClue :: "string list \<Rightarrow> nat \<Rightarrow> string \<times> nat" where
  "takeClue raw clueIdx =
     (if clueIdx < length raw then (raw ! clueIdx, Suc clueIdx) else ([], clueIdx))"

definition assignAcross :: "string list \<Rightarrow> nat \<Rightarrow> clueState \<Rightarrow> clueState" where
  "assignAcross raw i st =
     (case st of (clueIdx, acr, dwn) \<Rightarrow>
        case takeClue raw clueIdx of (c, k) \<Rightarrow> (k, acr[i := (acr ! i)\<lparr>clue := c\<rparr>], dwn))"

definition assignDown :: "string list \<Rightarrow> nat \<Rightarrow> clueState \<Rightarrow> clueState" where
  "assignDown raw i st =
     (case st of (clueIdx, acr, dwn) \<Rightarrow>
        case takeClue raw clueIdx of (c, k) \<Rightarrow> (k, acr, dwn[i := (dwn ! i)\<lparr>clue := c\<rparr>]))"

definition assignStartAD :: "string list \<Rightarrow> Start \<Rightarrow> clueState \<Rightarrow> clueState" where
  "assignStartAD raw s st =
     (let st1 = (if startsAcross s \<and> acrossIndex s \<noteq> None
                 then assignAcross raw (the (acrossIndex s)) st else st)
      in if startsDown s \<and> downIndex s \<noteq> None
         then assignDown raw (the (downIndex s)) st1 else st1)"

definition assignStartDA :: "string list \<Rightarrow> Start \<Rightarrow> clueState \<Rightarrow> clueState" where
  "assignStartDA raw s st =
     (let st1 = (if startsDown s \<and> downIndex s \<noteq> None
                 then assignDown raw (the (downIndex s)) st else st)
      in if startsAcross s \<and> acrossIndex s \<noteq> None
         then assignAcross raw (the (acrossIndex s)) st1 else st1)"

definition assignClues ::
  "ClueOrder \<Rightarrow> string list \<Rightarrow> Start list \<Rightarrow> ClueEntry list \<Rightarrow> ClueEntry list \<Rightarrow> clueState" where
  "assignClues order raw starts acr dwn =
     (case order of
        AcrossDown \<Rightarrow>
          fold (assignDown raw) [0..<length dwn]
            (fold (assignAcross raw) [0..<length acr] (0, acr, dwn))
      | DownAcross \<Rightarrow>
          fold (assignAcross raw) [0..<length acr]
            (fold (assignDown raw) [0..<length dwn] (0, acr, dwn))
      | InterleavedAD \<Rightarrow> fold (assignStartAD raw) starts (0, acr, dwn)
      | InterleavedDA \<Rightarrow> fold (assignStartDA raw) starts (0, acr, dwn))"

text \<open>
  The string section of the file: title, author, copyright, then \<open>numClues\<close>
  clues, each read by \<open>readNullTerminated\<close> at the cursor the one before left.
\<close>

definition readStrings ::
  "byte list \<Rightarrow> nat \<Rightarrow> nat \<Rightarrow> error + (string \<times> string \<times> string \<times> string list)" where
  "readStrings bytes cursor numClues =
     (case readNullTerminated bytes cursor of Inl e \<Rightarrow> Inl e | Inr (ttl, c1) \<Rightarrow>
     (case readNullTerminated bytes c1 of Inl e \<Rightarrow> Inl e | Inr (auth, c2) \<Rightarrow>
     (case readNullTerminated bytes c2 of Inl e \<Rightarrow> Inl e | Inr (copyr, c3) \<Rightarrow>
     (case readClues bytes c3 numClues [] of Inl e \<Rightarrow> Inl e | Inr (raw, c4) \<Rightarrow>
        Inr (ttl, auth, copyr, raw)))))"

text \<open>
  The rest of \<open>parsePuz\<close>, from "Build cell grid" to the \<open>return\<close>: the grid, the
  numbering scan, the clue assignment and the record returned. Nothing in it throws.
  \<open>opts\<close> is the optional field \<open>opts.clueOrder\<close>; the default is
  \<open>"interleaved-ad"\<close>.
\<close>

definition buildPuz ::
  "(string \<Rightarrow> string) \<Rightarrow> nat \<Rightarrow> nat \<Rightarrow> byte list \<Rightarrow> string \<Rightarrow> string \<Rightarrow> string \<Rightarrow>
   string list \<Rightarrow> ClueOrder option \<Rightarrow> ParsedPuz" where
  "buildPuz toUpperCase w h solBytes ttl auth copyr raw opts =
     (let g = buildGrid toUpperCase w solBytes (w * h);
          order = (case opts of None \<Rightarrow> InterleavedAD | Some ord \<Rightarrow> ord)
      in case scanGrid w h g of (nextNum, acr, dwn, starts) \<Rightarrow>
         (case assignClues order raw starts acr dwn of (clueIdx, acr1, dwn1) \<Rightarrow>
            \<lparr>width = w, height = h, title = ttl, author = auth, copyright = copyr,
             grid = g, cluesRaw = raw, across = acr1, down = dwn1, clueOrder = order\<rparr>))"

text \<open>\<open>parsePuz(buf, opts)\<close>: the header reads and the three \<open>throw\<close>s, in the source's order.\<close>

definition parsePuz :: "(string \<Rightarrow> string) \<Rightarrow> byte list \<Rightarrow> ClueOrder option \<Rightarrow> error + ParsedPuz" where
  "parsePuz toUpperCase bytes opts =
     (case getUint8 bytes 0x2c of Inl e \<Rightarrow> Inl e | Inr w \<Rightarrow>
     (case getUint8 bytes 0x2d of Inl e \<Rightarrow> Inl e | Inr h \<Rightarrow>
     (case getUint16LE bytes 0x2e of Inl e \<Rightarrow> Inl e | Inr numClues \<Rightarrow>
      if w = 0 \<or> h = 0 then Inl MissingDimensions
      else
        let gridSize = w * h; OFFSET_FILL = 0x34 + gridSize in
        if length bytes < OFFSET_FILL + gridSize then Inl TruncatedGrid
        else
          let solBytes = jsSlice bytes 0x34 (0x34 + gridSize) in
          (case readStrings bytes (OFFSET_FILL + gridSize) numClues of
             Inl e \<Rightarrow> Inl e
           | Inr (ttl, auth, copyr, raw) \<Rightarrow>
               Inr (buildPuz toUpperCase w h solBytes ttl auth copyr raw opts)))))"

section \<open>The Crossword component\<close>

datatype Dir = Across | Down

datatype CellStatus = Unchecked | Correct | Incorrect

text \<open>The fields \<open>id\<close> and \<open>name\<close> of \<open>Team\<close> are \<open>teamId\<close> and \<open>teamName\<close>.\<close>

record Team =
  teamId :: nat
  teamName :: string
  color :: string

text \<open>
  The state of the component that the handlers read and write. The state variable
  \<open>cells\<close> (the letters the users entered) is \<open>userCells\<close> here, since \<open>ClueEntry\<close>
  has a field \<open>cells\<close>.
\<close>

record Session =
  userCells :: "string list"
  status :: "CellStatus list"
  owners :: "nat option list"
  mode :: Dir
  activeIndex :: "nat option"
  selectedTeamId :: "nat option"

record KeyEvent =
  key :: string
  code :: string

text \<open>
  JavaScript arrays. Reading past the end gives \<open>undefined\<close>, and every read of the
  three per-cell arrays treats \<open>undefined\<close> as the default \<open>d\<close> of the array:
  \<open>cells[i] || ""\<close> and \<open>!cells[i]\<close> as the empty string, \<open>status[i] === "correct"\<close>
  as a status that is not \<open>correct\<close>, \<open>owners[i] != null\<close> as \<open>null\<close>. Writing past
  the end extends the array with holes, which read as \<open>undefined\<close>.
\<close>

definition arrGet :: "'a \<Rightarrow> 'a list \<Rightarrow> nat \<Rightarrow> 'a" where
  "arrGet d xs i = (if i < length xs then xs ! i else d)"

definition arrSet :: "'a \<Rightarrow> 'a list \<Rightarrow> nat \<Rightarrow> 'a \<Rightarrow> 'a list" where
  "arrSet d xs i v =
     (if i < length xs then xs[i := v] else xs @ replicate (i - length xs) d @ [v])"

text \<open>
  \<open>onFile\<close>, after \<open>parsePuz\<close> has returned: the three per-cell arrays are allocated
  anew, one element per cell of the grid.
\<close>

definition onFile :: "ParsedPuz \<Rightarrow> Session \<Rightarrow> Session" where
  "onFile parsed st =
     st\<lparr>userCells := map (\<lambda>cell. []) (grid parsed),
        status := map (\<lambda>cell. Unchecked) (grid parsed),
        owners := map (\<lambda>cell. None) (grid parsed)\<rparr>"

text \<open>
  The memo \<open>maps\<close>: \<open>cellToAcross\<close> is \<open>cellToEntry (across puz)\<close>, \<open>cellToDown\<close> is
  \<open>cellToEntry (down puz)\<close>. \<open>setEntryCells\<close> is the inner \<open>forEach\<close>, which maps every
  cell of entry \<open>i\<close> to \<open>i\<close>; the outer \<open>forEach\<close> walks the entries with their
  positions.
\<close>

definition setEntryCells :: "nat \<Rightarrow> ClueEntry \<Rightarrow> (nat \<rightharpoonup> nat) \<Rightarrow> (nat \<rightharpoonup> nat)" where
  "setEntryCells i entry m = fold (\<lambda>cell m1. m1(index cell \<mapsto> i)) (cells entry) m"

definition cellToEntry :: "ClueEntry list \<Rightarrow> (nat \<rightharpoonup> nat)" where
  "cellToEntry es = fold (\<lambda>(i, entry). setEntryCells i entry) (enumerate 0 es) Map.empty"

text \<open>The remainder \<open>a % b\<close> of JavaScript on integers, for \<open>b \<noteq> 0\<close>: it has the sign of \<open>a\<close>.\<close>

definition jsRem :: "int \<Rightarrow> int \<Rightarrow> int" where
  "jsRem a b = sgn a * (\<bar>a\<bar> mod \<bar>b\<bar>)"

text \<open>
  \<open>goToClue(dir, clueIndex)\<close>. \<open>arr[norm]\<close> outside the array is \<open>undefined\<close>, and
  reading its \<open>cells\<close> throws; \<open>target.cells[0]?.index\<close> of an entry without cells is
  \<open>undefined\<close>, and nothing is set.
\<close>

definition goToClue :: "ParsedPuz \<Rightarrow> Dir \<Rightarrow> int \<Rightarrow> Session \<Rightarrow> error + Session" where
  "goToClue puz dir clueIndex st =
     (let arr = (if dir = Across then across puz else down puz) in
      if length arr = 0 then Inr st
      else
        let n = int (length arr);
            norm = jsRem (jsRem clueIndex n + n) n
        in if norm < 0 \<or> n \<le> norm then Inl TypeError
           else
             (case cells (arr ! nat norm) of
                [] \<Rightarrow> Inr st
              | firstCell # rest \<Rightarrow> Inr (st\<lparr>mode := dir, activeIndex := Some (index firstCell)\<rparr>)))"

text \<open>\<open>checkPuzzle\<close>: the new status array, and the handler that installs it.\<close>

definition checkPuzzle :: "(string \<Rightarrow> string) \<Rightarrow> ParsedPuz \<Rightarrow> string list \<Rightarrow> CellStatus list" where
  "checkPuzzle toUpperCase puz cs =
     map (\<lambda>i. let cell = grid puz ! i in
               if isBlock cell then Unchecked
               else
                 let v = toUpperCase (arrGet [] cs i) in
                 if v = [] then Unchecked
                 else if v = solution cell then Correct
                 else Incorrect)
       [0..<width puz * height puz]"

definition onCheckPuzzle :: "(string \<Rightarrow> string) \<Rightarrow> ParsedPuz \<Rightarrow> Session \<Rightarrow> Session" where
  "onCheckPuzzle toUpperCase puz st = st\<lparr>status := checkPuzzle toUpperCase puz (userCells st)\<rparr>"

text \<open>The character classes \<open>[A-Z]\<close> and \<open>[a-zA-Z]\<close> of the two regular expressions.\<close>

definition isUpperAZ :: "char \<Rightarrow> bool" where
  "isUpperAZ ch = (65 \<le> (of_char ch :: nat) \<and> (of_char ch :: nat) \<le> 90)"

definition isAsciiLetter :: "char \<Rightarrow> bool" where
  "isAsciiLetter ch = (isUpperAZ ch \<or> (97 \<le> (of_char ch :: nat) \<and> (of_char ch :: nat) \<le> 122))"

text \<open>
  The loops \<open>for (let nc = c + 1; nc < w; nc++)\<close> and \<open>for (let nc = c - 1; nc >= 0; nc--)\<close>
  (and those over rows) stop at the first cell that is not a block: the first such
  element of the range, walked upwards or downwards.
\<close>

definition nextOpenCol :: "ParsedPuz \<Rightarrow> nat \<Rightarrow> nat \<Rightarrow> nat option" where
  "nextOpenCol puz r c =
     find (\<lambda>nc. \<not> isBlock (grid puz ! (r * width puz + nc))) [c + 1..<width puz]"

definition prevOpenCol :: "ParsedPuz \<Rightarrow> nat \<Rightarrow> nat \<Rightarrow> nat option" where
  "prevOpenCol puz r c =
     find (\<lambda>nc. \<not> isBlock (grid puz ! (r * width puz + nc))) (rev [0..<c])"

definition nextOpenRow :: "ParsedPuz \<Rightarrow> nat \<Rightarrow> nat \<Rightarrow> nat option" where
  "nextOpenRow puz r c =
     find (\<lambda>nr. \<not> isBlock (grid puz ! (nr * width puz + c))) [r + 1..<height puz]"

definition prevOpenRow :: "ParsedPuz \<Rightarrow> nat \<Rightarrow> nat \<Rightarrow> nat option" where
  "prevOpenRow puz r c =
     find (\<lambda>nr. \<not> isBlock (grid puz ! (nr * width puz + c))) (rev [0..<r])"

text \<open>
  \<open>onCellChange(idx)\<close>, for the text \<open>val\<close> of the input element
  (\<open>e.target.value || ""\<close>).
\<close>

definition onCellChange ::
  "(string \<Rightarrow> string) \<Rightarrow> ParsedPuz \<Rightarrow> nat \<Rightarrow> string \<Rightarrow> Session \<Rightarrow> Session" where
  "onCellChange toUpperCase puz idx val st =
     (if arrGet Unchecked (status st) idx = Correct then st
      else
        let v = filter isUpperAZ (toUpperCase val);
            st1 = st\<lparr>userCells := arrSet [] (userCells st) idx (take 1 v),
                     owners := arrSet None (owners st) idx (if v \<noteq> [] then selectedTeamId st else None),
                     status :=
                       (if status st = [] then status st
                        else if arrGet Unchecked (status st) idx = Incorrect
                        then arrSet Unchecked (status st) idx
                               (if take 1 v = [] then Unchecked else Incorrect)
                        else status st)\<rparr>
        in if length v \<ge> 1
           then
             let w = width puz; r = idx div w; c = idx mod w;
                 nextIndex =
                   (if mode st = Across
                    then (case nextOpenCol puz r c of None \<Rightarrow> idx | Some nc \<Rightarrow> r * w + nc)
                    else (case nextOpenRow puz r c of None \<Rightarrow> idx | Some nr \<Rightarrow> nr * w + c))
             in if nextIndex \<noteq> idx then st1\<lparr>activeIndex := Some nextIndex\<rparr> else st1
           else st1)"

text \<open>The closure \<open>move\<close> of \<open>onCellKeyDown\<close>.\<close>

definition move :: "ParsedPuz \<Rightarrow> nat \<Rightarrow> nat \<Rightarrow> Session \<Rightarrow> Session" where
  "move puz nr nc st =
     (if nr \<ge> height puz \<or> nc \<ge> width puz then st
      else
        let nidx = nr * width puz + nc in
        if isBlock (grid puz ! nidx) then st else st\<lparr>activeIndex := Some nidx\<rparr>)"

text \<open>
  The three updates \<open>setCells\<close>, \<open>setStatus\<close>, \<open>setOwners\<close> that empty cell \<open>i\<close>; the
  source writes them out in the Backspace case (twice) and in the Delete case.
\<close>

definition clearCell :: "nat \<Rightarrow> Session \<Rightarrow> Session" where
  "clearCell i st =
     st\<lparr>userCells := arrSet [] (userCells st) i [],
        status := arrSet Unchecked (status st) i Unchecked,
        owners := arrSet None (owners st) i None\<rparr>"

definition isLetterKey :: "string \<Rightarrow> bool" where
  "isLetterKey k = (length k = 1 \<and> (\<exists>ch \<in> set k. isAsciiLetter ch))"

text \<open>
  \<open>onCellKeyDown(idx)\<close> for the key event \<open>e\<close>. The handler is attached to the input
  of cell \<open>idx\<close> of \<open>puz.grid\<close>, so \<open>puz\<close> is not null.
\<close>

definition onCellKeyDown :: "ParsedPuz \<Rightarrow> nat \<Rightarrow> KeyEvent \<Rightarrow> Session \<Rightarrow> error + Session" where
  "onCellKeyDown puz idx e st =
     (let w = width puz; r = idx div w; c = idx mod w in
      if arrGet Unchecked (status st) idx = Correct \<and>
         (key e = ''Backspace'' \<or> key e = ''Delete'' \<or> isLetterKey (key e))
      then Inr st
      else if key e = '' '' \<or> key e = ''Spacebar'' \<or> code e = ''Space''
      then Inr (st\<lparr>mode := (if mode st = Across then Down else Across)\<rparr>)
      else if key e = ''Tab''
      then
        (if mode st = Across
         then
           let iAcross = (case cellToEntry (across puz) idx of None \<Rightarrow> 0 | Some i \<Rightarrow> i);
               next = iAcross + 1
           in if next < length (across puz) then goToClue puz Across (int next) st
              else goToClue puz Down 0 st
         else
           let iDown = (case cellToEntry (down puz) idx of None \<Rightarrow> 0 | Some i \<Rightarrow> i);
               next = iDown + 1
           in if next < length (down puz) then goToClue puz Down (int next) st
              else goToClue puz Across 0 st)
      else if key e = ''ArrowRight''
      then
        (case nextOpenCol puz r c of
           None \<Rightarrow> Inr (st\<lparr>mode := Across\<rparr>)
         | Some nc \<Rightarrow> Inr (move puz r nc (st\<lparr>mode := Across\<rparr>)))
      else if key e = ''ArrowLeft''
      then
        (case prevOpenCol puz r c of
           None \<Rightarrow> Inr (st\<lparr>mode := Across\<rparr>)
         | Some nc \<Rightarrow> Inr (move puz r nc (st\<lparr>mode := Across\<rparr>)))
      else if key e = ''ArrowDown''
      then
        (case nextOpenRow puz r c of
           None \<Rightarrow> Inr (st\<lparr>mode := Down\<rparr>)
         | Some nr \<Rightarrow> Inr (move puz nr c (st\<lparr>mode := Down\<rparr>)))
      else if key e = ''ArrowUp''
      then
        (case prevOpenRow puz r c of
           None \<Rightarrow> Inr (st\<lparr>mode := Down\<rparr>)
         | Some nr \<Rightarrow> Inr (move puz nr c (st\<lparr>mode := Down\<rparr>)))
      else if key e = ''Backspace''
      then
        (if arrGet [] (userCells st) idx = []
         then
           (if mode st = Across
            then
              (case prevOpenCol puz r c of
                 None \<Rightarrow> Inr st
               | Some nc \<Rightarrow> Inr (clearCell (r * w + nc) (st\<lparr>activeIndex := Some (r * w + nc)\<rparr>)))
            else
              (case prevOpenRow puz r c of
                 None \<Rightarrow> Inr st
               | Some nr \<Rightarrow> Inr (clearCell (nr * w + c) (st\<lparr>activeIndex := Some (nr * w + c)\<rparr>))))
         else Inr st)
      else if key e = ''Delete''
      then (if arrGet Unchecked (status st) idx \<noteq> Correct then Inr (clearCell idx st) else Inr st)
      else Inr st)"

text \<open>
  The memo \<open>scores\<close>: a \<open>Map\<close> from team id to score. \<open>scoreStep\<close> is the
  callback of \<open>status.forEach\<close>, which visits the indices of \<open>status\<close> in order.
\<close>

definition scoreStep ::
  "CellStatus list \<Rightarrow> nat option list \<Rightarrow> nat \<Rightarrow> (nat \<rightharpoonup> nat) \<Rightarrow> (nat \<rightharpoonup> nat)" where
  "scoreStep stat own i m =
     (if stat ! i = Correct
      then (case arrGet None own i of
              None \<Rightarrow> m
            | Some owner \<Rightarrow> m(owner \<mapsto> (case m owner of None \<Rightarrow> 0 | Some n \<Rightarrow> n) + 1))
      else m)"

definition scores :: "Team list \<Rightarrow> CellStatus list \<Rightarrow> nat option list \<Rightarrow> (nat \<rightharpoonup> nat)" where
  "scores teams stat own =
     fold (scoreStep stat own) [0..<length stat]
       (fold (\<lambda>t m. m(teamId t \<mapsto> 0)) teams Map.empty)"

section \<open>Notions used to state the properties\<close>

text \<open>The three header fields, as the bytes of a buffer of at least \<open>0x30\<close> bytes give them.\<close>

definition headerWidth :: "byte list \<Rightarrow> nat" where
  "headerWidth bytes = unat (bytes ! 0x2c)"

definition headerHeight :: "byte list \<Rightarrow> nat" where
  "headerHeight bytes = unat (bytes ! 0x2d)"

definition headerNumClues :: "byte list \<Rightarrow> nat" where
  "headerNumClues bytes = unat (bytes ! 0x2e) + 256 * unat (bytes ! 0x2f)"

text \<open>The number of NUL bytes from \<open>cursor\<close> to the end of the buffer.\<close>

definition nulCount :: "byte list \<Rightarrow> nat \<Rightarrow> nat" where
  "nulCount bytes cursor = count_list (drop cursor bytes) 0"

text \<open>
  An instance of \<open>toUpperCase\<close> for the concrete evaluations below: the case mapping
  of the ASCII letters. It agrees with \<open>String.prototype.toUpperCase\<close> on the strings of
  ASCII characters, which are the only ones in the sample files; on other characters
  \<open>toUpperCase\<close> does more (it maps the letters of Latin-1 as well, and can lengthen
  the string), which is why the decoder and the handlers take \<open>toUpperCase\<close> as an
  argument: the general statements are about every function in its place, or about
  every one that sends only the empty string to the empty string.
\<close>

definition asciiUpper :: "string \<Rightarrow> string" where
  "asciiUpper s =
     map (\<lambda>ch. if 97 \<le> (of_char ch :: nat) \<and> (of_char ch :: nat) \<le> 122
               then char_of ((of_char ch :: nat) - 32) else ch) s"

text \<open>
  Two puzzle files. \<open>puzABC\<close> is the 3 by 1 grid \<open>ABC\<close> with the one clue "Test";
  \<open>puzAxB\<close> is the 3 by 1 grid \<open>A.B\<close> without clues. Both have empty title, author
  and copyright.
\<close>

definition puzABC :: "byte list" where
  "puzABC = replicate 44 0 @ [3, 1, 1, 0] @ replicate 4 0 @ [65, 66, 67] @ [45, 45, 45]
            @ [0, 0, 0] @ [84, 101, 115, 116, 0]"

definition puzAxB :: "byte list" where
  "puzAxB = replicate 44 0 @ [3, 1, 0, 0] @ replicate 4 0 @ [65, 46, 66] @ [45, 46, 45]
            @ [0, 0, 0]"

definition session0 :: Session where
  "session0 = \<lparr>userCells = [], status = [], owners = [], mode = Across, activeIndex = None,
               selectedTeamId = Some 1\<rparr>"

text \<open>
  \<open>puzGrid32\<close> is the 3 by 2 grid \<open>ABC/DEF\<close> with the five clues "p" to "t": two
  across entries and three down entries.
\<close>

definition puzGrid32 :: "byte list" where
  "puzGrid32 = replicate 44 0 @ [3, 2, 5, 0] @ replicate 4 0 @ [65, 66, 67, 68, 69, 70]
               @ replicate 6 45 @ [0, 0, 0] @ [112, 0, 113, 0, 114, 0, 115, 0, 116, 0]"

text \<open>What \<open>parsePuz\<close> returns for the three files.\<close>

definition parsedABC :: ParsedPuz where
  "parsedABC = projr (parsePuz asciiUpper puzABC (Some AcrossDown))"

definition parsedAxB :: ParsedPuz where
  "parsedAxB = projr (parsePuz asciiUpper puzAxB None)"

definition parsedGrid32 :: ParsedPuz where
  "parsedGrid32 = projr (parsePuz asciiUpper puzGrid32 None)"

definition teamsAB :: "Team list" where
  "teamsAB = [\<lparr>teamId = 1, teamName = ''A'', color = ''#2d7ff9''\<rparr>,
              \<lparr>teamId = 2, teamName = ''B'', color = ''#ff0000''\<rparr>]"

text \<open>The number of the indices in \<open>is\<close> whose cell is correct and owned by team \<open>t\<close>.\<close>

definition ownedCorrect :: "CellStatus list \<Rightarrow> nat option list \<Rightarrow> nat \<Rightarrow> nat list \<Rightarrow> nat" where
  "ownedCorrect stat own t is =
     length (filter (\<lambda>i. stat ! i = Correct \<and> arrGet None own i = Some t) is)"

text \<open>A Backspace key event, and two states of the component.\<close>

definition keyBackspace :: KeyEvent where
  "keyBackspace = \<lparr>key = ''Backspace'', code = ''Backspace''\<rparr>"

definition sessionAxB :: Session where
  "sessionAxB = \<lparr>userCells = [''X'', [], []], status = [Unchecked, Unchecked, Unchecked],
                 owners = [Some 1, None, None], mode = Across, activeIndex = Some 2,
                 selectedTeamId = Some 1\<rparr>"

text \<open>
  \<open>lockedSession\<close>: \<open>puzABC\<close> is loaded, team 1 types "a" into cell 0, and the puzzle
  is checked. Cell 0 holds the letter A, is correct and belongs to team 1; the cursor
  has advanced to cell 1, which is empty.
\<close>

definition lockedSession :: Session where
  "lockedSession =
     onCheckPuzzle asciiUpper parsedABC
       (onCellChange asciiUpper parsedABC 0 ''a'' (onFile parsedABC session0))"

text \<open>
  The scan in closed form. Cell \<open>i\<close> (row \<open>i div w\<close>, column \<open>i mod w\<close>) starts an
  across entry, a down entry, or either, by the tests of the scan; \<open>numberAt\<close> is one
  more than the number of starts before cell \<open>i\<close>; \<open>acrossEntryAt\<close>, \<open>downEntryAt\<close>
  and \<open>startAt\<close> are what the scan pushes at a start. \<open>scanUpTo\<close> is the state of
  the scan after the cells \<open>0, ..., n - 1\<close>.
\<close>

definition startsAcrossAt :: "nat \<Rightarrow> nat \<Rightarrow> Cell list \<Rightarrow> nat \<Rightarrow> bool" where
  "startsAcrossAt w h g i =
     (\<not> isBlock (g ! i) \<and> (i mod w = 0 \<or> isBlockAt w h g (i div w) (i mod w - 1)))"

definition startsDownAt :: "nat \<Rightarrow> nat \<Rightarrow> Cell list \<Rightarrow> nat \<Rightarrow> bool" where
  "startsDownAt w h g i =
     (\<not> isBlock (g ! i) \<and> (i div w = 0 \<or> isBlockAt w h g (i div w - 1) (i mod w)))"

definition isStartAt :: "nat \<Rightarrow> nat \<Rightarrow> Cell list \<Rightarrow> nat \<Rightarrow> bool" where
  "isStartAt w h g i = (startsAcrossAt w h g i \<or> startsDownAt w h g i)"

definition numberAt :: "nat \<Rightarrow> nat \<Rightarrow> Cell list \<Rightarrow> nat \<Rightarrow> nat" where
  "numberAt w h g i = Suc (length (filter (isStartAt w h g) [0..<i]))"

definition acrossEntryAt :: "nat \<Rightarrow> nat \<Rightarrow> Cell list \<Rightarrow> nat \<Rightarrow> ClueEntry" where
  "acrossEntryAt w h g i =
     \<lparr>number = numberAt w h g i, clue = [], cells = acrossRun w h g (i div w) (i mod w)\<rparr>"

definition downEntryAt :: "nat \<Rightarrow> nat \<Rightarrow> Cell list \<Rightarrow> nat \<Rightarrow> ClueEntry" where
  "downEntryAt w h g i =
     \<lparr>number = numberAt w h g i, clue = [], cells = downRun w h g (i div w) (i mod w)\<rparr>"

definition startAt :: "nat \<Rightarrow> nat \<Rightarrow> Cell list \<Rightarrow> nat \<Rightarrow> Start" where
  "startAt w h g i =
     \<lparr>startNumber = numberAt w h g i,
      startsAcross = (i mod w = 0 \<or> isBlockAt w h g (i div w) (i mod w - 1)),
      startsDown = (i div w = 0 \<or> isBlockAt w h g (i div w - 1) (i mod w)),
      acrossIndex = (if startsAcrossAt w h g i
                     then Some (length (filter (startsAcrossAt w h g) [0..<i])) else None),
      downIndex = (if startsDownAt w h g i
                   then Some (length (filter (startsDownAt w h g) [0..<i])) else None)\<rparr>"

definition scanUpTo :: "nat \<Rightarrow> nat \<Rightarrow> Cell list \<Rightarrow> nat \<Rightarrow> scanState" where
  "scanUpTo w h g n =
     (Suc (length (filter (isStartAt w h g) [0..<n])),
      map (acrossEntryAt w h g) (filter (startsAcrossAt w h g) [0..<n]),
      map (downEntryAt w h g) (filter (startsDownAt w h g) [0..<n]),
      map (startAt w h g) (filter (isStartAt w h g) [0..<n]))"

text \<open>
  A run along one line of the grid (a row or a column), as positions \<open>k, k + 1, ...\<close>
  below \<open>n\<close> up to the first blocked one; \<open>acrossRun\<close> and \<open>downRun\<close> are its images in
  the grid. A position starts a run when it is open and the one before is blocked or
  missing.
\<close>

function lineRun :: "(nat \<Rightarrow> bool) \<Rightarrow> nat \<Rightarrow> nat \<Rightarrow> nat list" where
  "lineRun blk n k = (if k < n \<and> \<not> blk k then k # lineRun blk n (Suc k) else [])"
  by pat_completeness auto
termination
  by (relation "measure (\<lambda>(blk, n, k). n - k)") auto

declare lineRun.simps [simp del]

definition lineStart :: "(nat \<Rightarrow> bool) \<Rightarrow> nat \<Rightarrow> bool" where
  "lineStart blk k = (\<not> blk k \<and> (k = 0 \<or> blk (k - 1)))"

text \<open>A grid of \<open>w * h\<close> cells in which every cell carries its own index.\<close>

definition gridOK :: "nat \<Rightarrow> nat \<Rightarrow> Cell list \<Rightarrow> bool" where
  "gridOK w h g = (0 < w \<and> length g = w * h \<and> (\<forall>i<w * h. index (g ! i) = i))"

text \<open>
  The index of the first cell of an entry: the cell that shows the entry's number
  (\<open>numberMap\<close> of the component reads \<open>e.cells[0]?.index\<close>).
\<close>

definition firstCell :: "ClueEntry \<Rightarrow> nat" where
  "firstCell e = index (hd (cells e))"

text \<open>The index lists of the across entries and of the down entries of a grid.\<close>

definition acrossCells :: "nat \<Rightarrow> nat \<Rightarrow> Cell list \<Rightarrow> nat list list" where
  "acrossCells w h g =
     map (\<lambda>i. map index (acrossRun w h g (i div w) (i mod w)))
       (filter (startsAcrossAt w h g) [0..<w * h])"

definition downCells :: "nat \<Rightarrow> nat \<Rightarrow> Cell list \<Rightarrow> nat list list" where
  "downCells w h g =
     map (\<lambda>i. map index (downRun w h g (i div w) (i mod w)))
       (filter (startsDownAt w h g) [0..<w * h])"

text \<open>Two states of the clue assignment with the same entries but for the clues.\<close>

definition sameEntries :: "clueState \<Rightarrow> clueState \<Rightarrow> bool" where
  "sameEntries s t =
     (case s of (k, a, d) \<Rightarrow> case t of (k', a', d') \<Rightarrow>
        map cells a = map cells a' \<and> map number a = map number a' \<and>
        map cells d = map cells d' \<and> map number d = map number d')"

text \<open>What every puzzle returned by the decoder satisfies.\<close>

definition wellFormed :: "ParsedPuz \<Rightarrow> bool" where
  "wellFormed puz =
     (let w = width puz; h = height puz; g = grid puz in
      0 < w \<and> 0 < h \<and> gridOK w h g \<and>
      map cells (across puz) =
        map (\<lambda>i. acrossRun w h g (i div w) (i mod w)) (filter (startsAcrossAt w h g) [0..<w * h]) \<and>
      map number (across puz) = map (numberAt w h g) (filter (startsAcrossAt w h g) [0..<w * h]) \<and>
      map cells (down puz) =
        map (\<lambda>i. downRun w h g (i div w) (i mod w)) (filter (startsDownAt w h g) [0..<w * h]) \<and>
      map number (down puz) = map (numberAt w h g) (filter (startsDownAt w h g) [0..<w * h]))"

text \<open>
  A Tab key event, and \<open>puzBlock\<close>: the 1 by 1 grid whose only cell is a block, a
  puzzle without entries.
\<close>

definition keyTab :: KeyEvent where
  "keyTab = \<lparr>key = ''Tab'', code = ''Tab''\<rparr>"

definition puzBlock :: "byte list" where
  "puzBlock = replicate 44 0 @ [1, 1, 0, 0] @ replicate 4 0 @ [46] @ [46] @ [0, 0, 0]"

definition parsedBlock :: ParsedPuz where
  "parsedBlock = projr (parsePuz asciiUpper puzBlock None)"

text \<open>
  Clue assignment, described per entry: \<open>withClues f n es\<close> is \<open>es\<close> with the clue of
  entry \<open>i\<close> set to \<open>f i\<close> for the first \<open>n\<close> entries. \<open>acrossCount\<close> and \<open>downCount\<close>
  count the cells before \<open>n\<close> that start an across or a down entry.
\<close>

definition withClues :: "(nat \<Rightarrow> string) \<Rightarrow> nat \<Rightarrow> ClueEntry list \<Rightarrow> ClueEntry list" where
  "withClues f n es = map (\<lambda>i. if i < n then (es ! i)\<lparr>clue := f i\<rparr> else es ! i) [0..<length es]"

definition acrossCount :: "nat \<Rightarrow> nat \<Rightarrow> Cell list \<Rightarrow> nat \<Rightarrow> nat" where
  "acrossCount w h g n = length (filter (startsAcrossAt w h g) [0..<n])"

definition downCount :: "nat \<Rightarrow> nat \<Rightarrow> Cell list \<Rightarrow> nat \<Rightarrow> nat" where
  "downCount w h g n = length (filter (startsDownAt w h g) [0..<n])"

text \<open>The position in \<open>cluesRaw\<close> that an entry takes under the two interleaved orders.\<close>

definition acrossSlotAD :: "nat \<Rightarrow> nat \<Rightarrow> Cell list \<Rightarrow> nat \<Rightarrow> nat" where
  "acrossSlotAD w h g i =
     i + downCount w h g (filter (startsAcrossAt w h g) [0..<w * h] ! i)"

definition downSlotAD :: "nat \<Rightarrow> nat \<Rightarrow> Cell list \<Rightarrow> nat \<Rightarrow> nat" where
  "downSlotAD w h g j =
     j + acrossCount w h g (Suc (filter (startsDownAt w h g) [0..<w * h] ! j))"

definition acrossSlotDA :: "nat \<Rightarrow> nat \<Rightarrow> Cell list \<Rightarrow> nat \<Rightarrow> nat" where
  "acrossSlotDA w h g i =
     i + downCount w h g (Suc (filter (startsAcrossAt w h g) [0..<w * h] ! i))"

definition downSlotDA :: "nat \<Rightarrow> nat \<Rightarrow> Cell list \<Rightarrow> nat \<Rightarrow> nat" where
  "downSlotDA w h g j =
     j + acrossCount w h g (filter (startsDownAt w h g) [0..<w * h] ! j)"

text \<open>
  The position in \<open>cluesRaw\<close> that the scan's \<open>i\<close>-th across entry and \<open>j\<close>-th down
  entry take under each order, for \<open>na\<close> across and \<open>nd\<close> down entries.
\<close>

definition acrossSlot :: "ClueOrder \<Rightarrow> nat \<Rightarrow> nat \<Rightarrow> Cell list \<Rightarrow> nat \<Rightarrow> nat \<Rightarrow> nat \<Rightarrow> nat" where
  "acrossSlot order w h g na nd i =
     (case order of AcrossDown \<Rightarrow> i | DownAcross \<Rightarrow> nd + i
      | InterleavedAD \<Rightarrow> acrossSlotAD w h g i | InterleavedDA \<Rightarrow> acrossSlotDA w h g i)"

definition downSlot :: "ClueOrder \<Rightarrow> nat \<Rightarrow> nat \<Rightarrow> Cell list \<Rightarrow> nat \<Rightarrow> nat \<Rightarrow> nat \<Rightarrow> nat" where
  "downSlot order w h g na nd j =
     (case order of AcrossDown \<Rightarrow> na + j | DownAcross \<Rightarrow> j
      | InterleavedAD \<Rightarrow> downSlotAD w h g j | InterleavedDA \<Rightarrow> downSlotDA w h g j)"

text \<open>What \<open>parsePuz\<close> returns for \<open>puzABC\<close> under the order interleaved down-across.\<close>

definition parsedABCda :: ParsedPuz where
  "parsedABCda = projr (parsePuz asciiUpper puzABC (Some InterleavedDA))"

text \<open>
  \<open>puzDiag\<close> is the 2 by 2 grid \<open>A./.B\<close> without clues: cells 1 and 2 are blocks, and
  cell 3 starts an across and a down entry because of them.
\<close>

definition puzDiag :: "byte list" where
  "puzDiag = replicate 44 0 @ [2, 2, 0, 0] @ replicate 4 0 @ [65, 46, 46, 66]
             @ [45, 46, 46, 45] @ [0, 0, 0]"

definition parsedDiag :: ParsedPuz where
  "parsedDiag = projr (parsePuz asciiUpper puzDiag None)"

section \<open>The decoder: when it fails and when it returns\<close>


lemma scanNul_stop:
  "\<not> (cursor < length bytes \<and> bytes ! cursor \<noteq> 0) \<Longrightarrow> scanNul bytes cursor = cursor"
  by (subst scanNul.simps) auto

lemma scanNul_step:
  "cursor < length bytes \<Longrightarrow> bytes ! cursor \<noteq> 0 \<Longrightarrow>
   scanNul bytes cursor = scanNul bytes (Suc cursor)"
  by (simp add: scanNul.simps [of bytes cursor])

lemma nulCount_step:
  "cursor < length bytes \<Longrightarrow>
   nulCount bytes cursor = (if bytes ! cursor = 0 then 1 else 0) + nulCount bytes (Suc cursor)"
  by (simp add: nulCount_def Cons_nth_drop_Suc [symmetric])

lemma nulCount_beyond: "length bytes \<le> cursor \<Longrightarrow> nulCount bytes cursor = 0"
  by (simp add: nulCount_def)

lemma scanNul_found:
  "scanNul bytes cursor < length bytes \<Longrightarrow>
   nulCount bytes cursor = Suc (nulCount bytes (Suc (scanNul bytes cursor)))"
proof (induction bytes cursor rule: scanNul.induct)
  case (1 bytes cursor)
  show ?case
  proof (cases "cursor < length bytes \<and> bytes ! cursor \<noteq> 0")
    case True
    then have eq: "scanNul bytes cursor = scanNul bytes (Suc cursor)"
      by (simp add: scanNul_step)
    with 1 True have "nulCount bytes (Suc cursor) = Suc (nulCount bytes (Suc (scanNul bytes (Suc cursor))))"
      by simp
    with True eq show ?thesis by (simp add: nulCount_step)
  next
    case False
    then have eq: "scanNul bytes cursor = cursor" by (rule scanNul_stop)
    with 1(2) False have "cursor < length bytes" "bytes ! cursor = 0" by auto
    with eq show ?thesis by (simp add: nulCount_step)
  qed
qed

lemma scanNul_missing:
  "length bytes \<le> scanNul bytes cursor \<Longrightarrow> nulCount bytes cursor = 0"
proof (induction bytes cursor rule: scanNul.induct)
  case (1 bytes cursor)
  show ?case
  proof (cases "cursor < length bytes \<and> bytes ! cursor \<noteq> 0")
    case True
    then have eq: "scanNul bytes cursor = scanNul bytes (Suc cursor)"
      by (simp add: scanNul_step)
    with 1 True have "nulCount bytes (Suc cursor) = 0" by simp
    with True show ?thesis by (simp add: nulCount_step)
  next
    case False
    then have eq: "scanNul bytes cursor = cursor" by (rule scanNul_stop)
    with 1(2) show ?thesis by (simp add: nulCount_beyond)
  qed
qed

lemma readNullTerminated_Inl:
  "readNullTerminated bytes cursor = Inl e \<longleftrightarrow> e = UnterminatedString \<and> nulCount bytes cursor = 0"
  using scanNul_found [of bytes cursor] scanNul_missing [of bytes cursor]
  by (auto simp: readNullTerminated_def Let_def)

lemma readNullTerminated_Inr:
  "readNullTerminated bytes cursor = Inr (s, c1) \<Longrightarrow>
   nulCount bytes cursor = Suc (nulCount bytes c1)"
  using scanNul_found [of bytes cursor]
  by (auto simp: readNullTerminated_def Let_def split: if_splits)

lemma readClues_Inl:
  "readClues bytes cursor n acc = Inl e \<longleftrightarrow> e = UnterminatedString \<and> nulCount bytes cursor < n"
proof (induction n arbitrary: cursor acc)
  case 0
  show ?case by simp
next
  case (Suc n)
  show ?case
  proof (cases "readNullTerminated bytes cursor")
    case (Inl e')
    then show ?thesis using readNullTerminated_Inl [of bytes cursor e'] by auto
  next
    case (Inr p)
    obtain s c1 where p: "p = (s, c1)" by (cases p)
    have "nulCount bytes cursor = Suc (nulCount bytes c1)"
      using Inr p readNullTerminated_Inr by blast
    with Inr p Suc.IH [of c1 "acc @ [s]"] show ?thesis by simp
  qed
qed

lemma readClues_length:
  "readClues bytes cursor n acc = Inr (raw, c1) \<Longrightarrow> length raw = length acc + n"
proof (induction n arbitrary: cursor acc)
  case 0
  then show ?case by auto
next
  case (Suc n)
  then show ?case by (auto split: sum.splits)
qed

lemma readStrings_Inl:
  "readStrings bytes cursor n = Inl e \<longleftrightarrow> e = UnterminatedString \<and> nulCount bytes cursor < 3 + n"
proof (cases "readNullTerminated bytes cursor")
  case (Inl e1)
  then show ?thesis
    using readNullTerminated_Inl [of bytes cursor e1] by (auto simp: readStrings_def)
next
  case r1: (Inr p1)
  obtain s1 c1 where p1: "p1 = (s1, c1)" by (cases p1)
  have n1: "nulCount bytes cursor = Suc (nulCount bytes c1)"
    using r1 p1 readNullTerminated_Inr by blast
  show ?thesis
  proof (cases "readNullTerminated bytes c1")
    case (Inl e2)
    then show ?thesis
      using readNullTerminated_Inl [of bytes c1 e2] r1 p1 n1 by (auto simp: readStrings_def)
  next
    case r2: (Inr p2)
    obtain s2 c2 where p2: "p2 = (s2, c2)" by (cases p2)
    have n2: "nulCount bytes c1 = Suc (nulCount bytes c2)"
      using r2 p2 readNullTerminated_Inr by blast
    show ?thesis
    proof (cases "readNullTerminated bytes c2")
      case (Inl e3)
      then show ?thesis
        using readNullTerminated_Inl [of bytes c2 e3] r1 p1 n1 r2 p2 n2
        by (auto simp: readStrings_def)
    next
      case r3: (Inr p3)
      obtain s3 c3 where p3: "p3 = (s3, c3)" by (cases p3)
      have n3: "nulCount bytes c2 = Suc (nulCount bytes c3)"
        using r3 p3 readNullTerminated_Inr by blast
      show ?thesis
        using r1 p1 n1 r2 p2 n2 r3 p3 n3 readClues_Inl [of bytes c3 n "[]" e]
        by (auto simp: readStrings_def split: sum.splits)
    qed
  qed
qed

lemma readStrings_length:
  "readStrings bytes cursor n = Inr (ttl, auth, copyr, raw) \<Longrightarrow> length raw = n"
  using readClues_length [of bytes _ n "[]" raw]
  by (auto simp: readStrings_def split: sum.splits)

lemma parsePuz_eq:
  "parsePuz toUpperCase bytes opts =
     (if length bytes < 0x30 then Inl RangeError
      else if headerWidth bytes = 0 \<or> headerHeight bytes = 0 then Inl MissingDimensions
      else if length bytes < 0x34 + 2 * headerWidth bytes * headerHeight bytes then Inl TruncatedGrid
      else case readStrings bytes (0x34 + 2 * headerWidth bytes * headerHeight bytes) (headerNumClues bytes) of
             Inl e \<Rightarrow> Inl e
           | Inr (ttl, auth, copyr, raw) \<Rightarrow>
               Inr (buildPuz toUpperCase (headerWidth bytes) (headerHeight bytes)
                      (jsSlice bytes 0x34 (0x34 + headerWidth bytes * headerHeight bytes))
                      ttl auth copyr raw opts))"
proof -
  have two: "0x34 + w * h + w * h = 0x34 + 2 * w * h" for w h :: nat by simp
  show ?thesis
    unfolding parsePuz_def getUint8_def getUint16LE_def headerWidth_def headerHeight_def
      headerNumClues_def Let_def two
    by simp
qed

lemma readStrings_Inr:
  "readStrings bytes cursor n = Inr r \<Longrightarrow> 3 + n \<le> nulCount bytes cursor"
  using readStrings_Inl [of bytes cursor n UnterminatedString]
  by (cases "nulCount bytes cursor < 3 + n") auto

lemma parsePuz_RangeError:
  "parsePuz toUpperCase bytes opts = Inl RangeError \<longleftrightarrow> length bytes < 0x30"
  by (simp add: parsePuz_eq readStrings_Inl split: sum.splits)

lemma parsePuz_MissingDimensions:
  "parsePuz toUpperCase bytes opts = Inl MissingDimensions \<longleftrightarrow>
     0x30 \<le> length bytes \<and> (headerWidth bytes = 0 \<or> headerHeight bytes = 0)"
  by (simp add: parsePuz_eq readStrings_Inl split: sum.splits)

lemma parsePuz_TruncatedGrid:
  "parsePuz toUpperCase bytes opts = Inl TruncatedGrid \<longleftrightarrow>
     0x30 \<le> length bytes \<and> headerWidth bytes \<noteq> 0 \<and> headerHeight bytes \<noteq> 0 \<and>
     length bytes < 0x34 + 2 * headerWidth bytes * headerHeight bytes"
  by (simp add: parsePuz_eq readStrings_Inl split: sum.splits)

lemma parsePuz_UnterminatedString:
  "parsePuz toUpperCase bytes opts = Inl UnterminatedString \<longleftrightarrow>
     0x30 \<le> length bytes \<and> headerWidth bytes \<noteq> 0 \<and> headerHeight bytes \<noteq> 0 \<and>
     0x34 + 2 * headerWidth bytes * headerHeight bytes \<le> length bytes \<and>
     nulCount bytes (0x34 + 2 * headerWidth bytes * headerHeight bytes) < 3 + headerNumClues bytes"
  by (auto simp: parsePuz_eq readStrings_Inl split: sum.splits dest: readStrings_Inr)

lemma parsePuz_TypeError: "parsePuz toUpperCase bytes opts \<noteq> Inl TypeError"
  by (simp add: parsePuz_eq readStrings_Inl split: sum.splits)

lemma parsePuz_Inr:
  "(\<exists>p. parsePuz toUpperCase bytes opts = Inr p) \<longleftrightarrow>
     0x30 \<le> length bytes \<and> headerWidth bytes \<noteq> 0 \<and> headerHeight bytes \<noteq> 0 \<and>
     0x34 + 2 * headerWidth bytes * headerHeight bytes \<le> length bytes \<and>
     3 + headerNumClues bytes \<le> nulCount bytes (0x34 + 2 * headerWidth bytes * headerHeight bytes)"
proof (cases "parsePuz toUpperCase bytes opts")
  case (Inl e)
  then show ?thesis
    using parsePuz_RangeError [of toUpperCase bytes opts]
      parsePuz_MissingDimensions [of toUpperCase bytes opts]
      parsePuz_TruncatedGrid [of toUpperCase bytes opts]
      parsePuz_UnterminatedString [of toUpperCase bytes opts]
      parsePuz_TypeError [of toUpperCase bytes opts]
    by (cases e) auto
next
  case (Inr p)
  then have "parsePuz toUpperCase bytes opts \<noteq> Inl RangeError"
    "parsePuz toUpperCase bytes opts \<noteq> Inl MissingDimensions"
    "parsePuz toUpperCase bytes opts \<noteq> Inl TruncatedGrid"
    "parsePuz toUpperCase bytes opts \<noteq> Inl UnterminatedString"
    by simp_all
  then show ?thesis
    using Inr
    unfolding parsePuz_RangeError parsePuz_MissingDimensions parsePuz_TruncatedGrid
      parsePuz_UnterminatedString
    by auto
qed

text \<open>
  C2, as the code has it. The checks of \<open>parsePuz\<close> run in a fixed order, and each
  failure is the first check that fails: a buffer shorter than \<open>0x30\<close> bytes fails in
  the header reads with the \<open>RangeError\<close> of \<open>DataView\<close>; otherwise a width or height
  byte of 0 gives "missing width/height"; otherwise a buffer shorter than
  \<open>0x34 + 2 * width * height\<close> gives "truncated grid data"; otherwise fewer than
  \<open>3 + numClues\<close> NUL bytes after the two grids (one terminator for each of title,
  author, copyright and the clues) give "unterminated string"; otherwise, and only
  then, a puzzle is returned.
\<close>

theorem parsePuz_failure_classes:
  "(parsePuz toUpperCase bytes opts = Inl RangeError \<longleftrightarrow> length bytes < 0x30) \<and>
   (parsePuz toUpperCase bytes opts = Inl MissingDimensions \<longleftrightarrow>
      0x30 \<le> length bytes \<and> (headerWidth bytes = 0 \<or> headerHeight bytes = 0)) \<and>
   (parsePuz toUpperCase bytes opts = Inl TruncatedGrid \<longleftrightarrow>
      0x30 \<le> length bytes \<and> headerWidth bytes \<noteq> 0 \<and> headerHeight bytes \<noteq> 0 \<and>
      length bytes < 0x34 + 2 * headerWidth bytes * headerHeight bytes) \<and>
   (parsePuz toUpperCase bytes opts = Inl UnterminatedString \<longleftrightarrow>
      0x30 \<le> length bytes \<and> headerWidth bytes \<noteq> 0 \<and> headerHeight bytes \<noteq> 0 \<and>
      0x34 + 2 * headerWidth bytes * headerHeight bytes \<le> length bytes \<and>
      nulCount bytes (0x34 + 2 * headerWidth bytes * headerHeight bytes) < 3 + headerNumClues bytes) \<and>
   ((\<exists>p. parsePuz toUpperCase bytes opts = Inr p) \<longleftrightarrow>
      0x30 \<le> length bytes \<and> headerWidth bytes \<noteq> 0 \<and> headerHeight bytes \<noteq> 0 \<and>
      0x34 + 2 * headerWidth bytes * headerHeight bytes \<le> length bytes \<and>
      3 + headerNumClues bytes \<le> nulCount bytes (0x34 + 2 * headerWidth bytes * headerHeight bytes)) \<and>
   parsePuz toUpperCase bytes opts \<noteq> Inl TypeError"
  using parsePuz_RangeError [of toUpperCase bytes opts]
    parsePuz_MissingDimensions [of toUpperCase bytes opts]
    parsePuz_TruncatedGrid [of toUpperCase bytes opts]
    parsePuz_UnterminatedString [of toUpperCase bytes opts]
    parsePuz_Inr [of toUpperCase bytes opts]
    parsePuz_TypeError [of toUpperCase bytes opts]
  by blast

text \<open>
  The theorem at \<open>puzABC\<close>: 63 bytes, width 3, height 1, one clue, four NUL bytes
  after offset \<open>0x34 + 6\<close>; the decoder returns a puzzle.
\<close>

theorem parsePuz_failure_classes_witness:
  "\<exists>p. parsePuz asciiUpper puzABC None = Inr p"
proof -
  have "0x30 \<le> length puzABC \<and> headerWidth puzABC \<noteq> 0 \<and> headerHeight puzABC \<noteq> 0 \<and>
      0x34 + 2 * headerWidth puzABC * headerHeight puzABC \<le> length puzABC \<and>
      3 + headerNumClues puzABC \<le> nulCount puzABC (0x34 + 2 * headerWidth puzABC * headerHeight puzABC)"
    by code_simp
  then show ?thesis
    using parsePuz_failure_classes [of asciiUpper puzABC None] by blast
qed

text \<open>
  C2 as the claim states it fails on a buffer of 48 zero bytes. Its width byte is 0
  and its length is below \<open>0x34 + 2 * 0 * 0\<close>, so the claim classifies it both as
  MissingDimensions and as TruncatedGrid; the code reports "missing width/height".
\<close>

theorem parsePuz_truncated_iff_counterexample:
  "\<not> (parsePuz asciiUpper (replicate 48 0) None = Inl TruncatedGrid \<longleftrightarrow>
      length (replicate 48 (0 :: byte))
        < 0x34 + 2 * headerWidth (replicate 48 0) * headerHeight (replicate 48 0))"
  by code_simp

section \<open>The sample files\<close>

lemma parsePuz_puzABC: "parsePuz asciiUpper puzABC (Some AcrossDown) = Inr parsedABC"
  by code_simp

lemma parsePuz_puzAxB: "parsePuz asciiUpper puzAxB None = Inr parsedAxB"
  by code_simp

lemma parsePuz_puzGrid32: "parsePuz asciiUpper puzGrid32 None = Inr parsedGrid32"
  by code_simp

lemma parsePuz_puzDiag: "parsePuz asciiUpper puzDiag None = Inr parsedDiag"
  by code_simp

lemma asciiUpper_empty: "(asciiUpper s = []) = (s = [])"
  by (simp add: asciiUpper_def)

section \<open>Checking\<close>

text \<open>
  C8. \<open>checkPuzzle\<close> computes the whole status array, one element per cell, from the
  grid and the user's letters alone: a block is unchecked, a cell without a letter is
  unchecked, and a cell with a letter is correct when the uppercased letter is the
  cell's solution and incorrect otherwise. The status array before the check plays no
  part. The hypothesis on \<open>toUpperCase\<close> is a fact of JavaScript: a string is empty
  exactly when its uppercase form is.
\<close>

theorem checkPuzzle_status:
  assumes "\<forall>s. (toUpperCase s = []) = (s = [])"
    and "i < width puz * height puz"
  shows "length (checkPuzzle toUpperCase puz cs) = width puz * height puz \<and>
         checkPuzzle toUpperCase puz cs ! i =
           (if isBlock (grid puz ! i) then Unchecked
            else if arrGet [] cs i = [] then Unchecked
            else if toUpperCase (arrGet [] cs i) = solution (grid puz ! i) then Correct
            else Incorrect) \<and>
         onCheckPuzzle toUpperCase puz st = st\<lparr>status := checkPuzzle toUpperCase puz (userCells st)\<rparr> \<and>
         status (onCheckPuzzle toUpperCase puz (st\<lparr>status := old\<rparr>)) =
           status (onCheckPuzzle toUpperCase puz st)"
  using assms by (simp add: checkPuzzle_def onCheckPuzzle_def Let_def)

text \<open>
  The theorem on the grid \<open>ABC\<close> with the letters A, X, C: cell 1 is incorrect, the
  other two are correct. Lower-case letters are compared in upper case.
\<close>

theorem checkPuzzle_status_witness:
  "(\<forall>s. (asciiUpper s = []) = (s = [])) \<and> 1 < width parsedABC * height parsedABC \<and>
   checkPuzzle asciiUpper parsedABC [''A'', ''X'', ''C''] ! 1 = Incorrect \<and>
   checkPuzzle asciiUpper parsedABC [''A'', ''X'', ''C''] = [Correct, Incorrect, Correct] \<and>
   checkPuzzle asciiUpper parsedABC [''a'', ''b'', ''''] = [Correct, Correct, Unchecked]"
proof -
  have h1: "\<forall>s. (asciiUpper s = []) = (s = [])" by (simp add: asciiUpper_empty)
  have h2: "1 < width parsedABC * height parsedABC" by code_simp
  have e: "(if isBlock (grid parsedABC ! 1) then Unchecked
            else if arrGet [] [''A'', ''X'', ''C''] 1 = [] then Unchecked
            else if asciiUpper (arrGet [] [''A'', ''X'', ''C''] 1) = solution (grid parsedABC ! 1)
            then Correct else Incorrect) = Incorrect"
    by code_simp
  have c1: "checkPuzzle asciiUpper parsedABC [''A'', ''X'', ''C''] = [Correct, Incorrect, Correct]"
    by code_simp
  have c2: "checkPuzzle asciiUpper parsedABC [''a'', ''b'', ''''] = [Correct, Correct, Unchecked]"
    by code_simp
  from checkPuzzle_status [OF h1 h2, of "[''A'', ''X'', ''C'']"] e
  have "checkPuzzle asciiUpper parsedABC [''A'', ''X'', ''C''] ! 1 = Incorrect" by simp
  with h1 h2 c1 c2 show ?thesis by blast
qed

section \<open>Scores\<close>

lemma scores_init:
  "fold (\<lambda>t m. m(teamId t \<mapsto> 0)) teams m t =
     (if t \<in> teamId ` set teams then Some (0::nat) else m t)"
  by (induction teams arbitrary: m) auto

lemma scores_fold:
  "fold (scoreStep stat own) is m t =
     (if ownedCorrect stat own t is = 0 then m t
      else Some ((case m t of None \<Rightarrow> 0 | Some n \<Rightarrow> n) + ownedCorrect stat own t is))"
proof (induction "is" arbitrary: m)
  case Nil
  show ?case by (simp add: ownedCorrect_def)
next
  case (Cons i "is")
  show ?case
    unfolding fold_Cons o_apply Cons.IH
    by (auto simp: ownedCorrect_def scoreStep_def split: option.splits)
qed

lemma scores_eq:
  "scores teams stat own t =
     (if t \<in> teamId ` set teams then Some (ownedCorrect stat own t [0..<length stat])
      else if ownedCorrect stat own t [0..<length stat] = 0 then None
      else Some (ownedCorrect stat own t [0..<length stat]))"
  by (simp add: scores_def scores_fold scores_init)

lemma ownedCorrect_update:
  assumes "j < length stat" "arrGet None own j = None"
  shows "ownedCorrect (stat[j := s]) own t [0..<length stat] =
         ownedCorrect stat own t [0..<length stat]"
proof -
  have "filter (\<lambda>i. stat[j := s] ! i = Correct \<and> arrGet None own i = Some t) [0..<length stat]
      = filter (\<lambda>i. stat ! i = Correct \<and> arrGet None own i = Some t) [0..<length stat]"
    using assms by (intro filter_cong refl) (auto simp: nth_list_update)
  then show ?thesis by (simp add: ownedCorrect_def)
qed

text \<open>
  C9. For a known team \<open>t\<close> the score is the number of indices of \<open>status\<close> whose
  status is correct and whose owner is \<open>t\<close>; with no cells it is 0, the value every
  known team starts from. A cell without an owner adds to no score: whatever status
  such a cell is given, correct included, every score stays as it is.
\<close>

theorem scores_counts:
  "t \<in> teamId ` set teams \<Longrightarrow>
     scores teams stat own t =
       Some (length (filter (\<lambda>i. stat ! i = Correct \<and> arrGet None own i = Some t) [0..<length stat])) \<and>
     scores teams [] [] t = Some 0 \<and>
     (\<forall>j s. j < length stat \<and> arrGet None own j = None \<longrightarrow>
        scores teams (stat[j := s]) own t = scores teams stat own t)"
  by (simp add: scores_eq ownedCorrect_update) (simp add: ownedCorrect_def)

text \<open>
  The theorem for teams A (id 1) and B (id 2) on three correct cells: A owns cells 0
  and 1 and scores 2; when cell 1 has no owner, A scores 1.
\<close>

theorem scores_counts_witness:
  "1 \<in> teamId ` set teamsAB \<and>
   scores teamsAB [Correct, Correct, Correct] [Some 1, Some 1, Some 2] 1 = Some 2 \<and>
   scores teamsAB [Correct, Correct, Correct] [Some 1, Some 1, Some 2] 2 = Some 1 \<and>
   scores teamsAB [Correct, Correct, Correct] [Some 1, None, Some 2] 1 = Some 1"
proof -
  have h1: "1 \<in> teamId ` set teamsAB" and h2: "2 \<in> teamId ` set teamsAB"
    by (simp_all add: teamsAB_def)
  have e1: "length (filter (\<lambda>i. [Correct, Correct, Correct] ! i = Correct \<and>
                arrGet None [Some 1, Some 1, Some 2] i = Some (1::nat))
              [0..<length [Correct, Correct, Correct]]) = 2"
    by code_simp
  have e2: "length (filter (\<lambda>i. [Correct, Correct, Correct] ! i = Correct \<and>
                arrGet None [Some 1, Some 1, Some 2] i = Some (2::nat))
              [0..<length [Correct, Correct, Correct]]) = 1"
    by code_simp
  have e3: "length (filter (\<lambda>i. [Correct, Correct, Correct] ! i = Correct \<and>
                arrGet None [Some 1, None, Some 2] i = Some (1::nat))
              [0..<length [Correct, Correct, Correct]]) = 1"
    by code_simp
  show ?thesis
    using h1 scores_counts [OF h1, of "[Correct, Correct, Correct]" "[Some 1, Some 1, Some 2]"]
      scores_counts [OF h2, of "[Correct, Correct, Correct]" "[Some 1, Some 1, Some 2]"]
      scores_counts [OF h1, of "[Correct, Correct, Correct]" "[Some 1, None, Some 2]"] e1 e2 e3
    by simp
qed

section \<open>Backspace\<close>

lemma find_rev_upt_None:
  "find P (rev [0..<c]) = None \<longleftrightarrow> (\<forall>k<c. \<not> P k)"
  by (auto simp: find_None_iff)

lemma find_rev_upt_Some:
  "find P (rev [0..<c]) = Some n \<longleftrightarrow> n < c \<and> P n \<and> (\<forall>k. n < k \<and> k < c \<longrightarrow> \<not> P k)"
proof (induction c)
  case 0
  show ?case by simp
next
  case (Suc c)
  show ?case
  proof (cases "P c")
    case True
    then show ?thesis by (auto simp: less_Suc_eq)
  next
    case False
    then show ?thesis using Suc by (auto simp: less_Suc_eq)
  qed
qed

lemma backspace_eq:
  assumes "key e = ''Backspace''" "code e \<noteq> ''Space''"
    "arrGet Unchecked (status st) idx \<noteq> Correct"
  shows "onCellKeyDown puz idx e st =
     (if arrGet [] (userCells st) idx = []
         then
           (if mode st = Across
            then
              (case prevOpenCol puz (idx div width puz) (idx mod width puz) of
                 None \<Rightarrow> Inr st
               | Some nc \<Rightarrow> Inr (clearCell (idx div width puz * width puz + nc) (st\<lparr>activeIndex := Some (idx div width puz * width puz + nc)\<rparr>)))
            else
              (case prevOpenRow puz (idx div width puz) (idx mod width puz) of
                 None \<Rightarrow> Inr st
               | Some nr \<Rightarrow> Inr (clearCell (nr * width puz + idx mod width puz) (st\<lparr>activeIndex := Some (nr * width puz + idx mod width puz)\<rparr>))))
         else Inr st)"
  using assms by (simp add: onCellKeyDown_def Let_def)

lemma prevOpenCol_None:
  "prevOpenCol puz r c = None \<longleftrightarrow> (\<forall>nc<c. isBlock (grid puz ! (r * width puz + nc)))"
  by (simp add: prevOpenCol_def find_rev_upt_None)

lemma prevOpenCol_Some:
  "prevOpenCol puz r c = Some nc \<longleftrightarrow>
     nc < c \<and> \<not> isBlock (grid puz ! (r * width puz + nc)) \<and>
     (\<forall>k. nc < k \<and> k < c \<longrightarrow> isBlock (grid puz ! (r * width puz + k)))"
  by (simp add: prevOpenCol_def find_rev_upt_Some)

lemma prevOpenRow_None:
  "prevOpenRow puz r c = None \<longleftrightarrow> (\<forall>nr<r. isBlock (grid puz ! (nr * width puz + c)))"
  by (simp add: prevOpenRow_def find_rev_upt_None)

lemma prevOpenRow_Some:
  "prevOpenRow puz r c = Some nr \<longleftrightarrow>
     nr < r \<and> \<not> isBlock (grid puz ! (nr * width puz + c)) \<and>
     (\<forall>k. nr < k \<and> k < r \<longrightarrow> isBlock (grid puz ! (k * width puz + c)))"
  by (simp add: prevOpenRow_def find_rev_upt_Some)

text \<open>
  C4, as the code has it. Backspace on a cell that is not locked and holds no letter
  walks back through the row (mode across) or the column (mode down) to the nearest
  cell that is not a block, passing over blocks. When there is no such cell, the
  state stays as it is. When there is one and it is not locked, it is emptied (letter
  empty, status unchecked, no owner) and becomes the active cell. Backspace on a cell
  that is not locked and holds a letter changes nothing in the handler.
\<close>

theorem backspace_previous_open_cell:
  assumes "key e = ''Backspace''" and "code e \<noteq> ''Space''"
    and "arrGet Unchecked (status st) idx \<noteq> Correct"
    and "w = width puz" and "r = idx div w" and "c = idx mod w"
  shows
    "(arrGet [] (userCells st) idx \<noteq> [] \<longrightarrow> onCellKeyDown puz idx e st = Inr st) \<and>
     (arrGet [] (userCells st) idx = [] \<and> mode st = Across \<and>
        (\<forall>nc<c. isBlock (grid puz ! (r * w + nc))) \<longrightarrow>
      onCellKeyDown puz idx e st = Inr st) \<and>
     (arrGet [] (userCells st) idx = [] \<and> mode st = Down \<and>
        (\<forall>nr<r. isBlock (grid puz ! (nr * w + c))) \<longrightarrow>
      onCellKeyDown puz idx e st = Inr st) \<and>
     (\<forall>nc. arrGet [] (userCells st) idx = [] \<and> mode st = Across \<and>
        nc < c \<and> \<not> isBlock (grid puz ! (r * w + nc)) \<and>
        (\<forall>k. nc < k \<and> k < c \<longrightarrow> isBlock (grid puz ! (r * w + k))) \<and>
        arrGet Unchecked (status st) (r * w + nc) \<noteq> Correct \<longrightarrow>
      onCellKeyDown puz idx e st =
        Inr (st\<lparr>activeIndex := Some (r * w + nc),
                userCells := arrSet [] (userCells st) (r * w + nc) [],
                status := arrSet Unchecked (status st) (r * w + nc) Unchecked,
                owners := arrSet None (owners st) (r * w + nc) None\<rparr>)) \<and>
     (\<forall>nr. arrGet [] (userCells st) idx = [] \<and> mode st = Down \<and>
        nr < r \<and> \<not> isBlock (grid puz ! (nr * w + c)) \<and>
        (\<forall>k. nr < k \<and> k < r \<longrightarrow> isBlock (grid puz ! (k * w + c))) \<and>
        arrGet Unchecked (status st) (nr * w + c) \<noteq> Correct \<longrightarrow>
      onCellKeyDown puz idx e st =
        Inr (st\<lparr>activeIndex := Some (nr * w + c),
                userCells := arrSet [] (userCells st) (nr * w + c) [],
                status := arrSet Unchecked (status st) (nr * w + c) Unchecked,
                owners := arrSet None (owners st) (nr * w + c) None\<rparr>))"
proof -
  note eq = backspace_eq [OF assms(1-3), of puz, folded assms(4), folded assms(5) assms(6)]
  have m: "mode st = Down \<longleftrightarrow> mode st \<noteq> Across" by (cases "mode st") auto
  have a: "prevOpenCol puz r c = None \<longleftrightarrow> (\<forall>nc<c. isBlock (grid puz ! (r * w + nc)))"
    by (simp add: prevOpenCol_None assms(4))
  have b: "prevOpenRow puz r c = None \<longleftrightarrow> (\<forall>nr<r. isBlock (grid puz ! (nr * w + c)))"
    by (simp add: prevOpenRow_None assms(4))
  have a': "nc < c \<and> \<not> isBlock (grid puz ! (r * w + nc)) \<and>
        (\<forall>k. nc < k \<and> k < c \<longrightarrow> isBlock (grid puz ! (r * w + k))) \<Longrightarrow> prevOpenCol puz r c = Some nc" for nc
    by (simp add: prevOpenCol_Some assms(4))
  have b': "nr < r \<and> \<not> isBlock (grid puz ! (nr * w + c)) \<and>
        (\<forall>k. nr < k \<and> k < r \<longrightarrow> isBlock (grid puz ! (k * w + c))) \<Longrightarrow> prevOpenRow puz r c = Some nr" for nr
    by (simp add: prevOpenRow_Some assms(4))
  show ?thesis
    unfolding eq using a b a' b' m by (auto simp: clearCell_def)
qed

text \<open>
  The theorem on the row \<open>A.B\<close>, in mode across, at the empty cell 2: the block at
  cell 1 is passed over, cell 0 is emptied and becomes the active cell.
\<close>

theorem backspace_previous_open_cell_witness:
  "onCellKeyDown parsedAxB 2 keyBackspace sessionAxB =
     Inr (sessionAxB\<lparr>activeIndex := Some 0, userCells := [[], [], []],
            status := [Unchecked, Unchecked, Unchecked], owners := [None, None, None]\<rparr>)"
proof -
  have h: "key keyBackspace = ''Backspace''" "code keyBackspace \<noteq> ''Space''"
    "arrGet Unchecked (status sessionAxB) 2 \<noteq> Correct"
    "3 = width parsedAxB" "0 = 2 div (3::nat)" "2 = 2 mod (3::nat)"
    by code_simp+
  have p: "arrGet [] (userCells sessionAxB) 2 = [] \<and> mode sessionAxB = Across \<and>
        0 < (2::nat) \<and> \<not> isBlock (grid parsedAxB ! (0 * 3 + 0)) \<and>
        (\<forall>k. 0 < k \<and> k < (2::nat) \<longrightarrow> isBlock (grid parsedAxB ! (0 * 3 + k))) \<and>
        arrGet Unchecked (status sessionAxB) (0 * 3 + 0) \<noteq> Correct"
  proof -
    have "\<forall>k. 0 < k \<and> k < (2::nat) \<longrightarrow> k = 1" by auto
    moreover have "isBlock (grid parsedAxB ! (0 * 3 + 1))" by code_simp
    ultimately have "\<forall>k. 0 < k \<and> k < (2::nat) \<longrightarrow> isBlock (grid parsedAxB ! (0 * 3 + k))"
      by metis
    moreover have "arrGet [] (userCells sessionAxB) 2 = []" "mode sessionAxB = Across"
      "\<not> isBlock (grid parsedAxB ! (0 * 3 + 0))"
      "arrGet Unchecked (status sessionAxB) (0 * 3 + 0) \<noteq> Correct"
      by code_simp+
    ultimately show ?thesis by simp
  qed
  have v: "sessionAxB\<lparr>activeIndex := Some (0 * 3 + 0),
                userCells := arrSet [] (userCells sessionAxB) (0 * 3 + 0) [],
                status := arrSet Unchecked (status sessionAxB) (0 * 3 + 0) Unchecked,
                owners := arrSet None (owners sessionAxB) (0 * 3 + 0) None\<rparr>
     = sessionAxB\<lparr>activeIndex := Some 0, userCells := [[], [], []],
            status := [Unchecked, Unchecked, Unchecked], owners := [None, None, None]\<rparr>"
    by code_simp
  from backspace_previous_open_cell [OF h] p
  have "onCellKeyDown parsedAxB 2 keyBackspace sessionAxB =
        Inr (sessionAxB\<lparr>activeIndex := Some (0 * 3 + 0),
                userCells := arrSet [] (userCells sessionAxB) (0 * 3 + 0) [],
                status := arrSet Unchecked (status sessionAxB) (0 * 3 + 0) Unchecked,
                owners := arrSet None (owners sessionAxB) (0 * 3 + 0) None\<rparr>)"
    by blast
  then show ?thesis unfolding v .
qed

text \<open>
  C4 as the claim states it, one cell backward and skipping nothing, fails on the same
  input: the cell before cell 2 is cell 1, a block, and the handler lands on cell 0.
\<close>

theorem backspace_one_cell_back_counterexample:
  "arrGet [] (userCells sessionAxB) 2 = [] \<and> mode sessionAxB = Across \<and>
   isBlock (grid parsedAxB ! 1) \<and>
   onCellKeyDown parsedAxB 2 keyBackspace sessionAxB =
     Inr (sessionAxB\<lparr>activeIndex := Some 0, userCells := [[], [], []],
            status := [Unchecked, Unchecked, Unchecked], owners := [None, None, None]\<rparr>) \<and>
   Some (0::nat) \<noteq> Some (2 - 1)"
  by code_simp

text \<open>
  C1 fails in the code. In \<open>lockedSession\<close> cell 0 is locked; Backspace on the empty
  cell 1 steps back onto it and empties it: the letter, the status \<open>correct\<close> and the
  owner of the locked cell are all lost. The guard at the top of \<open>onCellKeyDown\<close> tests
  the lock of the cell that has the focus, and the Backspace case then clears the
  cell before it without testing that cell's lock, as the Delete case and
  \<open>onCellChange\<close> do for theirs.
\<close>

theorem backspace_clears_locked_cell:
  "status lockedSession ! 0 = Correct \<and> userCells lockedSession ! 0 = ''A'' \<and>
   owners lockedSession ! 0 = Some 1 \<and>
   arrGet [] (userCells lockedSession) 1 = [] \<and> mode lockedSession = Across \<and>
   onCellKeyDown parsedABC 1 keyBackspace lockedSession =
     Inr (lockedSession\<lparr>userCells := [[], [], []], status := [Unchecked, Unchecked, Unchecked],
            owners := [None, None, None], activeIndex := Some 0\<rparr>)"
  by code_simp

section \<open>The numbering scan in closed form\<close>

lemma upt_snoc_filter:
  "filter P [0..<Suc n] = filter P [0..<n] @ (if P n then [n] else [])"
  by simp

lemma scanCell_scanUpTo:
  assumes "c < w"
  shows "scanCell w h g r c (scanUpTo w h g (r * w + c)) = scanUpTo w h g (Suc (r * w + c))"
proof -
  define i where "i = r * w + c"
  have dm: "i div w = r" "i mod w = c"
    using assms by (simp_all add: i_def)
  define sa where "sa = (c = 0 \<or> isBlockAt w h g r (c - 1))"
  define sd where "sd = (r = 0 \<or> isBlockAt w h g (r - 1) c)"
  have A: "startsAcrossAt w h g i = (\<not> isBlock (g ! i) \<and> sa)"
    by (simp add: startsAcrossAt_def dm sa_def)
  have D: "startsDownAt w h g i = (\<not> isBlock (g ! i) \<and> sd)"
    by (simp add: startsDownAt_def dm sd_def)
  have S: "isStartAt w h g i = (\<not> isBlock (g ! i) \<and> (sa \<or> sd))"
    by (auto simp: isStartAt_def A D)
  have step: "scanCell w h g r c (n, acr, dwn, starts) =
    (if isBlock (g ! i) \<or> (\<not> sa \<and> \<not> sd) then (n, acr, dwn, starts)
     else (Suc n,
       (if sa then acr @ [\<lparr>number = n, clue = [], cells = acrossRun w h g r c\<rparr>] else acr),
       (if sd then dwn @ [\<lparr>number = n, clue = [], cells = downRun w h g r c\<rparr>] else dwn),
       starts @ [\<lparr>startNumber = n, startsAcross = sa, startsDown = sd,
                  acrossIndex = (if sa then Some (length acr) else None),
                  downIndex = (if sd then Some (length dwn) else None)\<rparr>]))"
    for n acr dwn starts
    by (simp add: scanCell_def Let_def i_def sa_def sd_def)
  show ?thesis
  proof (cases "isBlock (g ! i) \<or> (\<not> sa \<and> \<not> sd)")
    case True
    then have "\<not> startsAcrossAt w h g i" "\<not> startsDownAt w h g i" "\<not> isStartAt w h g i"
      using A D S by auto
    then show ?thesis
      unfolding i_def [symmetric] scanUpTo_def step upt_snoc_filter using True by simp
  next
    case False
    then have nb: "\<not> isBlock (g ! i)" and st: "isStartAt w h g i" using S by auto
    have A': "startsAcrossAt w h g i = sa" and D': "startsDownAt w h g i = sd"
      using A D nb by auto
    show ?thesis
      unfolding i_def [symmetric] scanUpTo_def step upt_snoc_filter
      using False st A' D'
      by (simp add: acrossEntryAt_def downEntryAt_def startAt_def numberAt_def dm sa_def sd_def)
  qed
qed

lemma scanRow_prefix:
  "c \<le> w \<Longrightarrow> fold (scanCell w h g r) [0..<c] (scanUpTo w h g (r * w)) = scanUpTo w h g (r * w + c)"
proof (induction c)
  case 0
  show ?case by simp
next
  case (Suc c)
  then have "c < w" by simp
  with Suc show ?case by (simp add: scanCell_scanUpTo)
qed

lemma scanRow_scanUpTo:
  "scanRow w h g r (scanUpTo w h g (r * w)) = scanUpTo w h g (Suc r * w)"
  using scanRow_prefix [of w w h g r] by (simp add: scanRow_def add.commute)

lemma scanGrid_prefix:
  "fold (scanRow w h g) [0..<r] (scanUpTo w h g 0) = scanUpTo w h g (r * w)"
proof (induction r)
  case 0
  show ?case by simp
next
  case (Suc r)
  then show ?case using scanRow_scanUpTo [of w h g r] by simp
qed

lemma scanGrid_eq: "scanGrid w h g = scanUpTo w h g (h * w)"
  using scanGrid_prefix [of w h g h] by (simp add: scanGrid_def scanUpTo_def)

section \<open>Runs along a row or a column\<close>

lemma lineRun_open: "k < n \<Longrightarrow> \<not> blk k \<Longrightarrow> lineRun blk n k = k # lineRun blk n (Suc k)"
  by (subst lineRun.simps) simp

lemma lineRun_closed: "\<not> (k < n \<and> \<not> blk k) \<Longrightarrow> lineRun blk n k = []"
  by (subst lineRun.simps) auto

lemma set_lineRun:
  "set (lineRun blk n k) = {j. k \<le> j \<and> j < n \<and> (\<forall>m. k \<le> m \<and> m \<le> j \<longrightarrow> \<not> blk m)}"
proof (induction blk n k rule: lineRun.induct)
  case (1 blk n k)
  show ?case
  proof (cases "k < n \<and> \<not> blk k")
    case True
    then have IH: "set (lineRun blk n (Suc k)) =
        {j. Suc k \<le> j \<and> j < n \<and> (\<forall>m. Suc k \<le> m \<and> m \<le> j \<longrightarrow> \<not> blk m)}"
      using 1 by simp
    have "{j. k \<le> j \<and> j < n \<and> (\<forall>m. k \<le> m \<and> m \<le> j \<longrightarrow> \<not> blk m)} =
          insert k {j. Suc k \<le> j \<and> j < n \<and> (\<forall>m. Suc k \<le> m \<and> m \<le> j \<longrightarrow> \<not> blk m)}"
      (is "?L = insert k ?R")
    proof (intro set_eqI iffI)
      fix j assume j: "j \<in> ?L"
      show "j \<in> insert k ?R"
      proof (cases "j = k")
        case False
        with j have "Suc k \<le> j" by simp
        with j show ?thesis by auto
      qed simp
    next
      fix j assume j: "j \<in> insert k ?R"
      show "j \<in> ?L"
      proof (cases "j = k")
        case True
        have "m = k" if "k \<le> m" "m \<le> k" for m using that by simp
        with True \<open>k < n \<and> \<not> blk k\<close> show ?thesis by auto
      next
        case False
        with j have jr: "j \<in> ?R" by simp
        have "\<not> blk m" if "k \<le> m" "m \<le> j" for m
        proof (cases "m = k")
          case True
          with \<open>k < n \<and> \<not> blk k\<close> show ?thesis by simp
        next
          case False
          with that have "Suc k \<le> m" by simp
          with jr that show ?thesis by simp
        qed
        with jr show ?thesis by simp
      qed
    qed
    with True IH show ?thesis by (simp add: lineRun_open)
  next
    case False
    then have "lineRun blk n k = []" by (rule lineRun_closed)
    moreover have "{j. k \<le> j \<and> j < n \<and> (\<forall>m. k \<le> m \<and> m \<le> j \<longrightarrow> \<not> blk m)} = {}"
      using False by auto
    ultimately show ?thesis by simp
  qed
qed

lemma distinct_lineRun: "distinct (lineRun blk n k)"
proof (induction blk n k rule: lineRun.induct)
  case (1 blk n k)
  show ?case
  proof (cases "k < n \<and> \<not> blk k")
    case True
    then show ?thesis using 1 by (simp add: lineRun_open set_lineRun)
  next
    case False
    then show ?thesis by (simp add: lineRun_closed)
  qed
qed

lemma lineStart_exists:
  "\<not> blk j \<Longrightarrow> \<exists>k\<le>j. lineStart blk k \<and> (\<forall>m. k \<le> m \<and> m \<le> j \<longrightarrow> \<not> blk m)"
proof (induction j)
  case 0
  then show ?case by (auto simp: lineStart_def)
next
  case (Suc j)
  show ?case
  proof (cases "blk j")
    case True
    with Suc.prems have "lineStart blk (Suc j)" by (simp add: lineStart_def)
    with Suc.prems show ?thesis by (intro exI [of _ "Suc j"]) (auto simp: le_Suc_eq)
  next
    case False
    with Suc.IH obtain k where k: "k \<le> j" "lineStart blk k"
      "\<forall>m. k \<le> m \<and> m \<le> j \<longrightarrow> \<not> blk m" by blast
    with Suc.prems show ?thesis by (intro exI [of _ k]) (auto simp: le_Suc_eq)
  qed
qed

lemma lineStart_unique:
  assumes "lineStart blk k" "lineStart blk k'"
    and "j \<in> set (lineRun blk n k)" "j \<in> set (lineRun blk n k')"
  shows "k = k'"
proof -
  have aux: False if "lineStart blk a" "lineStart blk b" "a < b"
    "j \<in> set (lineRun blk n a)" "j \<in> set (lineRun blk n b)" for a b
  proof -
    from that(5) have "b \<le> j" by (simp add: set_lineRun)
    with that(3) have "a \<le> b - 1" "b - 1 \<le> j" by simp_all
    with that(4) have "\<not> blk (b - 1)" by (simp add: set_lineRun)
    moreover from that(2,3) have "blk (b - 1)" by (auto simp: lineStart_def)
    ultimately show False by simp
  qed
  show ?thesis
    using aux [of k k'] aux [of k' k] assms by (cases k k' rule: linorder_cases) auto
qed

lemma acrossRun_lineRun:
  "acrossRun w h g r c = map (\<lambda>cc. g ! (r * w + cc)) (lineRun (isBlockAt w h g r) w c)"
proof (induction w h g r c rule: acrossRun.induct)
  case (1 w h g r cc)
  show ?case
  proof (cases "cc < w \<and> \<not> isBlockAt w h g r cc")
    case True
    with 1 show ?thesis
      by (subst acrossRun.simps) (simp add: lineRun_open)
  next
    case False
    then show ?thesis
      by (subst acrossRun.simps) (auto simp: lineRun_closed)
  qed
qed

lemma downRun_lineRun:
  "downRun w h g r c = map (\<lambda>rr. g ! (rr * w + c)) (lineRun (\<lambda>rr. isBlockAt w h g rr c) h r)"
proof (induction w h g r c rule: downRun.induct)
  case (1 w h g rr c)
  show ?case
  proof (cases "rr < h \<and> \<not> isBlockAt w h g rr c")
    case True
    with 1 show ?thesis
      by (subst downRun.simps) (simp add: lineRun_open)
  next
    case False
    then show ?thesis
      by (subst downRun.simps) (auto simp: lineRun_closed)
  qed
qed

lemma buildGrid_gridOK: "0 < w \<Longrightarrow> gridOK w h (buildGrid toUpperCase w sol (w * h))"
  by (simp add: gridOK_def buildGrid_def mkCell_def Let_def)

lemma pos_bound: "r < h \<Longrightarrow> c < w \<Longrightarrow> r * w + c < w * (h::nat)"
proof -
  assume "r < h" "c < w"
  then have "r * w + c < r * w + w" by simp
  also have "\<dots> = Suc r * w" by simp
  also have "\<dots> \<le> h * w" using \<open>r < h\<close> by (intro mult_le_mono1) simp
  finally show ?thesis by (simp add: mult.commute)
qed

lemma div_bound: "0 < w \<Longrightarrow> i < w * (h::nat) \<Longrightarrow> i div w < h"
  by (simp add: less_mult_imp_div_less mult.commute)

lemma isBlockAt_in: "r < h \<Longrightarrow> c < w \<Longrightarrow> isBlockAt w h g r c = isBlock (g ! (r * w + c))"
  by (simp add: isBlockAt_def)

text \<open>Indices of an across run.\<close>

lemma acrossRun_indices:
  assumes "gridOK w h g" "r < h"
  shows "map index (acrossRun w h g r c) = map (\<lambda>cc. r * w + cc) (lineRun (isBlockAt w h g r) w c)"
proof -
  have "index (g ! (r * w + cc)) = r * w + cc" if "cc \<in> set (lineRun (isBlockAt w h g r) w c)" for cc
  proof -
    from that have "cc < w" by (simp add: set_lineRun)
    with assms pos_bound [of r h cc w] show ?thesis by (simp add: gridOK_def)
  qed
  then show ?thesis by (simp add: acrossRun_lineRun)
qed

lemma downRun_indices:
  assumes "gridOK w h g" "c < w"
  shows "map index (downRun w h g r c) = map (\<lambda>rr. rr * w + c) (lineRun (\<lambda>rr. isBlockAt w h g rr c) h r)"
proof -
  have "index (g ! (rr * w + c)) = rr * w + c" if "rr \<in> set (lineRun (\<lambda>rr. isBlockAt w h g rr c) h r)" for rr
  proof -
    from that have "rr < h" by (simp add: set_lineRun)
    with assms pos_bound [of rr h c w] show ?thesis by (simp add: gridOK_def)
  qed
  then show ?thesis by (simp add: downRun_lineRun)
qed

lemma startsAcrossAt_lineStart:
  assumes "gridOK w h g" "i < w * h"
  shows "startsAcrossAt w h g i = lineStart (isBlockAt w h g (i div w)) (i mod w)"
proof -
  from assms have w: "0 < w" and r: "i div w < h" by (simp_all add: gridOK_def div_bound)
  then have c: "i mod w < w" by simp
  have "isBlockAt w h g (i div w) (i mod w) = isBlock (g ! i)"
    using r c by (simp add: isBlockAt_in)
  then show ?thesis by (simp add: startsAcrossAt_def lineStart_def)
qed

lemma startsDownAt_lineStart:
  assumes "gridOK w h g" "i < w * h"
  shows "startsDownAt w h g i = lineStart (\<lambda>rr. isBlockAt w h g rr (i mod w)) (i div w)"
proof -
  from assms have w: "0 < w" and r: "i div w < h" by (simp_all add: gridOK_def div_bound)
  then have c: "i mod w < w" by simp
  have "isBlockAt w h g (i div w) (i mod w) = isBlock (g ! i)"
    using r c by (simp add: isBlockAt_in)
  then show ?thesis by (simp add: startsDownAt_def lineStart_def)
qed

text \<open>Membership of a cell index in the run of a start.\<close>

lemma across_member:
  assumes ok: "gridOK w h g" and i: "i < w * h"
  shows "j \<in> set (map index (acrossRun w h g (i div w) (i mod w))) \<longleftrightarrow>
         j < w * h \<and> j div w = i div w \<and> j mod w \<in> set (lineRun (isBlockAt w h g (i div w)) w (i mod w))"
proof -
  from ok i have w: "0 < w" and r: "i div w < h" by (simp_all add: gridOK_def div_bound)
  have eq: "map index (acrossRun w h g (i div w) (i mod w)) =
            map (\<lambda>cc. i div w * w + cc) (lineRun (isBlockAt w h g (i div w)) w (i mod w))"
    using ok r by (rule acrossRun_indices)
  show ?thesis
  proof
    assume "j \<in> set (map index (acrossRun w h g (i div w) (i mod w)))"
    then obtain cc where cc: "cc \<in> set (lineRun (isBlockAt w h g (i div w)) w (i mod w))"
      and j: "j = i div w * w + cc" unfolding eq by auto
    from cc have "cc < w" by (simp add: set_lineRun)
    with j r w cc show "j < w * h \<and> j div w = i div w \<and>
        j mod w \<in> set (lineRun (isBlockAt w h g (i div w)) w (i mod w))"
      using pos_bound [of "i div w" h cc w] by simp
  next
    assume a: "j < w * h \<and> j div w = i div w \<and>
        j mod w \<in> set (lineRun (isBlockAt w h g (i div w)) w (i mod w))"
    then have "j = i div w * w + j mod w"
      by (metis div_mult_mod_eq)
    with a show "j \<in> set (map index (acrossRun w h g (i div w) (i mod w)))"
      unfolding eq by (metis (no_types, lifting) image_eqI set_map)
  qed
qed

lemma down_member:
  assumes ok: "gridOK w h g" and i: "i < w * h"
  shows "j \<in> set (map index (downRun w h g (i div w) (i mod w))) \<longleftrightarrow>
         j < w * h \<and> j mod w = i mod w \<and>
         j div w \<in> set (lineRun (\<lambda>rr. isBlockAt w h g rr (i mod w)) h (i div w))"
proof -
  from ok i have w: "0 < w" and r: "i div w < h" by (simp_all add: gridOK_def div_bound)
  then have c: "i mod w < w" by simp
  have eq: "map index (downRun w h g (i div w) (i mod w)) =
            map (\<lambda>rr. rr * w + i mod w) (lineRun (\<lambda>rr. isBlockAt w h g rr (i mod w)) h (i div w))"
    using ok c by (rule downRun_indices)
  show ?thesis
  proof
    assume "j \<in> set (map index (downRun w h g (i div w) (i mod w)))"
    then obtain rr where rr: "rr \<in> set (lineRun (\<lambda>rr. isBlockAt w h g rr (i mod w)) h (i div w))"
      and j: "j = rr * w + i mod w" unfolding eq by auto
    from rr have "rr < h" by (simp add: set_lineRun)
    with j c w rr show "j < w * h \<and> j mod w = i mod w \<and>
         j div w \<in> set (lineRun (\<lambda>rr. isBlockAt w h g rr (i mod w)) h (i div w))"
      using pos_bound [of rr h "i mod w" w] by simp
  next
    assume a: "j < w * h \<and> j mod w = i mod w \<and>
         j div w \<in> set (lineRun (\<lambda>rr. isBlockAt w h g rr (i mod w)) h (i div w))"
    then have "j = j div w * w + i mod w"
      by (metis div_mult_mod_eq)
    with a show "j \<in> set (map index (downRun w h g (i div w) (i mod w)))"
      unfolding eq by (metis (no_types, lifting) image_eqI set_map)
  qed
qed

lemma distinct_concat_map:
  assumes "distinct xs"
    and "\<And>x. x \<in> set xs \<Longrightarrow> distinct (f x)"
    and "\<And>x y. x \<in> set xs \<Longrightarrow> y \<in> set xs \<Longrightarrow> x \<noteq> y \<Longrightarrow> set (f x) \<inter> set (f y) = {}"
  shows "distinct (concat (map f xs))"
  using assms
proof (induction xs)
  case Nil
  show ?case by simp
next
  case (Cons x xs)
  have "set (f x) \<inter> set (f y) = {}" if "y \<in> set xs" for y
    using Cons.prems(1) Cons.prems(3) [of x y] that by auto
  moreover have "distinct (concat (map f xs))"
    using Cons by simp
  ultimately show ?case using Cons.prems(2) [of x] by auto
qed

lemma count_list_distinct: "distinct ys \<Longrightarrow> count_list ys x = (if x \<in> set ys then 1 else 0)"
  by (induction ys) auto

lemma filter_member_concat:
  "distinct (concat xss) \<Longrightarrow>
   length (filter (\<lambda>xs. x \<in> set xs) xss) = (if x \<in> set (concat xss) then 1 else 0)"
proof (induction xss)
  case Nil
  show ?case by simp
next
  case (Cons xs xss)
  then have IH: "length (filter (\<lambda>xs. x \<in> set xs) xss) = (if x \<in> set (concat xss) then 1 else 0)"
    and dj: "set xs \<inter> set (concat xss) = {}" by simp_all
  show ?case
  proof (cases "x \<in> set xs")
    case True
    with dj have "x \<notin> set (concat xss)" by blast
    with True IH show ?thesis by simp
  next
    case False
    with IH show ?thesis by simp
  qed
qed

lemma across_run_distinct:
  assumes "gridOK w h g" "i < w * h"
  shows "distinct (map index (acrossRun w h g (i div w) (i mod w)))"
proof -
  from assms have r: "i div w < h" by (simp add: gridOK_def div_bound)
  have "inj_on (\<lambda>cc. i div w * w + cc) A" for A by (simp add: inj_on_def)
  then show ?thesis
    unfolding acrossRun_indices [OF assms(1) r] by (simp add: distinct_map distinct_lineRun)
qed

lemma down_run_distinct:
  assumes "gridOK w h g" "i < w * h"
  shows "distinct (map index (downRun w h g (i div w) (i mod w)))"
proof -
  from assms have w: "0 < w" by (simp add: gridOK_def)
  then have c: "i mod w < w" by simp
  have "inj_on (\<lambda>rr. rr * w + i mod w) A" for A using w by (simp add: inj_on_def)
  then show ?thesis
    unfolding downRun_indices [OF assms(1) c] by (simp add: distinct_map distinct_lineRun)
qed

lemma across_runs_disjoint:
  assumes ok: "gridOK w h g" and i: "i < w * h" "startsAcrossAt w h g i"
    and i': "i' < w * h" "startsAcrossAt w h g i'"
    and j: "j \<in> set (map index (acrossRun w h g (i div w) (i mod w)))"
       "j \<in> set (map index (acrossRun w h g (i' div w) (i' mod w)))"
  shows "i = i'"
proof -
  from j have d: "i div w = i' div w"
    and m: "j mod w \<in> set (lineRun (isBlockAt w h g (i div w)) w (i mod w))"
    and m': "j mod w \<in> set (lineRun (isBlockAt w h g (i' div w)) w (i' mod w))"
    unfolding across_member [OF ok i(1)] across_member [OF ok i'(1)] by auto
  have "lineStart (isBlockAt w h g (i div w)) (i mod w)"
    using i startsAcrossAt_lineStart [OF ok i(1)] by simp
  moreover have "lineStart (isBlockAt w h g (i div w)) (i' mod w)"
    using i' startsAcrossAt_lineStart [OF ok i'(1)] d by simp
  ultimately have "i mod w = i' mod w"
    using m m' d lineStart_unique by metis
  with d show ?thesis by (metis div_mult_mod_eq)
qed

lemma down_runs_disjoint:
  assumes ok: "gridOK w h g" and i: "i < w * h" "startsDownAt w h g i"
    and i': "i' < w * h" "startsDownAt w h g i'"
    and j: "j \<in> set (map index (downRun w h g (i div w) (i mod w)))"
       "j \<in> set (map index (downRun w h g (i' div w) (i' mod w)))"
  shows "i = i'"
proof -
  from j have d: "i mod w = i' mod w"
    and m: "j div w \<in> set (lineRun (\<lambda>rr. isBlockAt w h g rr (i mod w)) h (i div w))"
    and m': "j div w \<in> set (lineRun (\<lambda>rr. isBlockAt w h g rr (i' mod w)) h (i' div w))"
    unfolding down_member [OF ok i(1)] down_member [OF ok i'(1)] by auto
  have "lineStart (\<lambda>rr. isBlockAt w h g rr (i mod w)) (i div w)"
    using i startsDownAt_lineStart [OF ok i(1)] by simp
  moreover have "lineStart (\<lambda>rr. isBlockAt w h g rr (i mod w)) (i' div w)"
    using i' startsDownAt_lineStart [OF ok i'(1)] d by simp
  ultimately have "i div w = i' div w"
    using m m' d lineStart_unique by metis
  with d show ?thesis by (metis div_mult_mod_eq)
qed

lemma distinct_acrossCells:
  assumes "gridOK w h g"
  shows "distinct (concat (acrossCells w h g))"
  unfolding acrossCells_def
proof (rule distinct_concat_map)
  show "distinct (filter (startsAcrossAt w h g) [0..<w * h])" by simp
next
  fix x assume "x \<in> set (filter (startsAcrossAt w h g) [0..<w * h])"
  then show "distinct (map index (acrossRun w h g (x div w) (x mod w)))"
    using assms by (simp add: across_run_distinct)
next
  fix x y
  assume "x \<in> set (filter (startsAcrossAt w h g) [0..<w * h])"
    "y \<in> set (filter (startsAcrossAt w h g) [0..<w * h])" "x \<noteq> y"
  then show "set (map index (acrossRun w h g (x div w) (x mod w))) \<inter>
             set (map index (acrossRun w h g (y div w) (y mod w))) = {}"
    using across_runs_disjoint [OF assms, of x y] by auto
qed

lemma distinct_downCells:
  assumes "gridOK w h g"
  shows "distinct (concat (downCells w h g))"
  unfolding downCells_def
proof (rule distinct_concat_map)
  show "distinct (filter (startsDownAt w h g) [0..<w * h])" by simp
next
  fix x assume "x \<in> set (filter (startsDownAt w h g) [0..<w * h])"
  then show "distinct (map index (downRun w h g (x div w) (x mod w)))"
    using assms by (simp add: down_run_distinct)
next
  fix x y
  assume "x \<in> set (filter (startsDownAt w h g) [0..<w * h])"
    "y \<in> set (filter (startsDownAt w h g) [0..<w * h])" "x \<noteq> y"
  then show "set (map index (downRun w h g (x div w) (x mod w))) \<inter>
             set (map index (downRun w h g (y div w) (y mod w))) = {}"
    using down_runs_disjoint [OF assms, of x y] by auto
qed

lemma open_cell: 
  assumes "gridOK w h g" "j < w * h"
  shows "isBlockAt w h g (j div w) (j mod w) = isBlock (g ! j)"
proof -
  from assms have "0 < w" "j div w < h" by (simp_all add: gridOK_def div_bound)
  then show ?thesis by (simp add: isBlockAt_in)
qed

lemma set_acrossCells:
  assumes ok: "gridOK w h g"
  shows "set (concat (acrossCells w h g)) = {j. j < w * h \<and> \<not> isBlock (g ! j)}"
proof (intro set_eqI iffI)
  fix j assume "j \<in> set (concat (acrossCells w h g))"
  then obtain i where i: "i < w * h" "startsAcrossAt w h g i"
    and j: "j \<in> set (map index (acrossRun w h g (i div w) (i mod w)))"
    by (auto simp: acrossCells_def)
  from j have a: "j < w * h" "j div w = i div w"
    "j mod w \<in> set (lineRun (isBlockAt w h g (i div w)) w (i mod w))"
    unfolding across_member [OF ok i(1)] by auto
  from a(3) have "\<not> isBlockAt w h g (i div w) (j mod w)"
    by (simp add: set_lineRun)
  with a(1,2) open_cell [OF ok a(1)] show "j \<in> {j. j < w * h \<and> \<not> isBlock (g ! j)}" by simp
next
  fix j assume "j \<in> {j. j < w * h \<and> \<not> isBlock (g ! j)}"
  then have j: "j < w * h" "\<not> isBlock (g ! j)" by simp_all
  from ok j have w: "0 < w" and r: "j div w < h" by (simp_all add: gridOK_def div_bound)
  then have c: "j mod w < w" by simp
  define blk where "blk = isBlockAt w h g (j div w)"
  have "\<not> blk (j mod w)" using j open_cell [OF ok j(1)] by (simp add: blk_def)
  then obtain k where k: "k \<le> j mod w" "lineStart blk k"
    "\<forall>m. k \<le> m \<and> m \<le> j mod w \<longrightarrow> \<not> blk m"
    using lineStart_exists by blast
  define i where "i = j div w * w + k"
  from k(1) c have kw: "k < w" by simp
  then have dm: "i div w = j div w" "i mod w = k" by (simp_all add: i_def)
  have iN: "i < w * h" unfolding i_def using r kw by (rule pos_bound)
  have "startsAcrossAt w h g i"
    using startsAcrossAt_lineStart [OF ok iN] k(2) by (simp add: dm blk_def)
  moreover have "j \<in> set (map index (acrossRun w h g (i div w) (i mod w)))"
    unfolding across_member [OF ok iN] using j(1) k c by (simp add: dm set_lineRun blk_def)
  ultimately show "j \<in> set (concat (acrossCells w h g))"
    using iN by (auto simp: acrossCells_def)
qed

lemma set_downCells:
  assumes ok: "gridOK w h g"
  shows "set (concat (downCells w h g)) = {j. j < w * h \<and> \<not> isBlock (g ! j)}"
proof (intro set_eqI iffI)
  fix j assume "j \<in> set (concat (downCells w h g))"
  then obtain i where i: "i < w * h" "startsDownAt w h g i"
    and j: "j \<in> set (map index (downRun w h g (i div w) (i mod w)))"
    by (auto simp: downCells_def)
  from j have a: "j < w * h" "j mod w = i mod w"
    "j div w \<in> set (lineRun (\<lambda>rr. isBlockAt w h g rr (i mod w)) h (i div w))"
    unfolding down_member [OF ok i(1)] by auto
  from a(3) have "\<not> isBlockAt w h g (j div w) (i mod w)"
    by (simp add: set_lineRun)
  with a(1,2) open_cell [OF ok a(1)] show "j \<in> {j. j < w * h \<and> \<not> isBlock (g ! j)}" by simp
next
  fix j assume "j \<in> {j. j < w * h \<and> \<not> isBlock (g ! j)}"
  then have j: "j < w * h" "\<not> isBlock (g ! j)" by simp_all
  from ok j have w: "0 < w" and r: "j div w < h" by (simp_all add: gridOK_def div_bound)
  then have c: "j mod w < w" by simp
  define blk where "blk = (\<lambda>rr. isBlockAt w h g rr (j mod w))"
  have "\<not> blk (j div w)" using j open_cell [OF ok j(1)] by (simp add: blk_def)
  then obtain k where k: "k \<le> j div w" "lineStart blk k"
    "\<forall>m. k \<le> m \<and> m \<le> j div w \<longrightarrow> \<not> blk m"
    using lineStart_exists by blast
  define i where "i = k * w + j mod w"
  from k(1) r have kh: "k < h" by simp
  have dm: "i div w = k" "i mod w = j mod w" using c by (simp_all add: i_def)
  have iN: "i < w * h" unfolding i_def using kh c by (rule pos_bound)
  have "startsDownAt w h g i"
    using startsDownAt_lineStart [OF ok iN] k(2) by (simp add: dm blk_def)
  moreover have "j \<in> set (map index (downRun w h g (i div w) (i mod w)))"
    unfolding down_member [OF ok iN] using j(1) k r by (simp add: dm set_lineRun blk_def)
  ultimately show "j \<in> set (concat (downCells w h g))"
    using iN by (auto simp: downCells_def)
qed

text \<open>The clue assignment changes the clues only.\<close>

lemma map_update_same:
  assumes "f v = f (xs ! i)"
  shows "map f (xs[i := v]) = map f xs"
proof (cases "i < length xs")
  case True
  with assms show ?thesis by (simp add: map_update list_update_same_conv)
next
  case False
  then have "xs[i := v] = xs" by (simp add: list_update_beyond)
  then show ?thesis by simp
qed

lemma sameEntries_refl: "sameEntries s s"
  by (simp add: sameEntries_def split: prod.splits)

lemma sameEntries_assignAcross: "sameEntries s t \<Longrightarrow> sameEntries s (assignAcross raw i t)"
  by (auto simp: sameEntries_def assignAcross_def map_update_same split: prod.splits)

lemma sameEntries_assignDown: "sameEntries s t \<Longrightarrow> sameEntries s (assignDown raw i t)"
  by (auto simp: sameEntries_def assignDown_def map_update_same split: prod.splits)

lemma sameEntries_assignStartAD: "sameEntries s t \<Longrightarrow> sameEntries s (assignStartAD raw x t)"
  by (simp add: assignStartAD_def Let_def sameEntries_assignAcross sameEntries_assignDown)

lemma sameEntries_assignStartDA: "sameEntries s t \<Longrightarrow> sameEntries s (assignStartDA raw x t)"
  by (simp add: assignStartDA_def Let_def sameEntries_assignAcross sameEntries_assignDown)

lemma sameEntries_fold:
  "(\<And>x t. sameEntries s t \<Longrightarrow> sameEntries s (f x t)) \<Longrightarrow> sameEntries s t \<Longrightarrow>
   sameEntries s (fold f xs t)"
  by (induction xs arbitrary: t) auto

lemma sameEntries_assignClues:
  "sameEntries (0, acr, dwn) (assignClues order raw starts acr dwn)"
  unfolding assignClues_def
  by (cases order)
    (simp_all add: sameEntries_fold sameEntries_assignAcross sameEntries_assignDown
      sameEntries_assignStartAD sameEntries_assignStartDA sameEntries_refl)

section \<open>The puzzles the decoder returns\<close>

lemma parsePuz_Inr_buildPuz:
  assumes "parsePuz toUpperCase bytes opts = Inr puz"
  shows "\<exists>sol ttl auth copyr raw.
           puz = buildPuz toUpperCase (headerWidth bytes) (headerHeight bytes) sol ttl auth copyr raw opts \<and>
           0 < headerWidth bytes \<and> 0 < headerHeight bytes"
  using assms unfolding parsePuz_eq
  by (auto split: if_splits sum.splits intro!: exI)

lemma buildPuz_fields:
  "width (buildPuz toUpperCase w h sol ttl auth copyr raw opts) = w"
  "height (buildPuz toUpperCase w h sol ttl auth copyr raw opts) = h"
  "grid (buildPuz toUpperCase w h sol ttl auth copyr raw opts) = buildGrid toUpperCase w sol (w * h)"
  "cluesRaw (buildPuz toUpperCase w h sol ttl auth copyr raw opts) = raw"
  "clueOrder (buildPuz toUpperCase w h sol ttl auth copyr raw opts) =
     (case opts of None \<Rightarrow> InterleavedAD | Some ord \<Rightarrow> ord)"
  by (simp_all add: buildPuz_def Let_def split: prod.splits)

lemma buildPuz_entries:
  assumes "g = buildGrid toUpperCase w sol (w * h)"
  shows "sameEntries
     (0, map (acrossEntryAt w h g) (filter (startsAcrossAt w h g) [0..<w * h]),
         map (downEntryAt w h g) (filter (startsDownAt w h g) [0..<w * h]))
     (0, across (buildPuz toUpperCase w h sol ttl auth copyr raw opts),
         down (buildPuz toUpperCase w h sol ttl auth copyr raw opts))"
proof -
  obtain k a d where asg: "assignClues (case opts of None \<Rightarrow> InterleavedAD | Some ord \<Rightarrow> ord) raw
      (map (startAt w h g) (filter (isStartAt w h g) [0..<w * h]))
      (map (acrossEntryAt w h g) (filter (startsAcrossAt w h g) [0..<w * h]))
      (map (downEntryAt w h g) (filter (startsDownAt w h g) [0..<w * h])) = (k, a, d)"
    by (cases "assignClues (case opts of None \<Rightarrow> InterleavedAD | Some ord \<Rightarrow> ord) raw
      (map (startAt w h g) (filter (isStartAt w h g) [0..<w * h]))
      (map (acrossEntryAt w h g) (filter (startsAcrossAt w h g) [0..<w * h]))
      (map (downEntryAt w h g) (filter (startsDownAt w h g) [0..<w * h]))") auto
  have "across (buildPuz toUpperCase w h sol ttl auth copyr raw opts) = a"
    "down (buildPuz toUpperCase w h sol ttl auth copyr raw opts) = d"
    using asg by (simp_all add: buildPuz_def Let_def scanGrid_eq scanUpTo_def assms mult.commute)
  moreover have "sameEntries
     (0, map (acrossEntryAt w h g) (filter (startsAcrossAt w h g) [0..<w * h]),
         map (downEntryAt w h g) (filter (startsDownAt w h g) [0..<w * h])) (k, a, d)"
    using sameEntries_assignClues [of "map (acrossEntryAt w h g) (filter (startsAcrossAt w h g) [0..<w * h])"
        "map (downEntryAt w h g) (filter (startsDownAt w h g) [0..<w * h])"
        "case opts of None \<Rightarrow> InterleavedAD | Some ord \<Rightarrow> ord" raw
        "map (startAt w h g) (filter (isStartAt w h g) [0..<w * h])"]
    by (simp add: asg)
  ultimately show ?thesis by (simp add: sameEntries_def)
qed

lemma parsePuz_wellFormed:
  assumes "parsePuz toUpperCase bytes opts = Inr puz"
  shows "wellFormed puz"
proof -
  from parsePuz_Inr_buildPuz [OF assms] obtain sol ttl auth copyr raw where
    p: "puz = buildPuz toUpperCase (headerWidth bytes) (headerHeight bytes) sol ttl auth copyr raw opts"
    and w: "0 < headerWidth bytes" and h: "0 < headerHeight bytes" by blast
  define W where "W = headerWidth bytes"
  define H where "H = headerHeight bytes"
  define g where "g = buildGrid toUpperCase W sol (W * H)"
  have f: "width puz = W" "height puz = H" "grid puz = g"
    by (simp_all add: p buildPuz_fields W_def H_def g_def)
  have ok: "gridOK W H g" using w by (simp add: g_def W_def buildGrid_gridOK)
  have se: "sameEntries
     (0, map (acrossEntryAt W H g) (filter (startsAcrossAt W H g) [0..<W * H]),
         map (downEntryAt W H g) (filter (startsDownAt W H g) [0..<W * H]))
     (0, across puz, down puz)"
    unfolding p W_def H_def using buildPuz_entries [of g toUpperCase W sol H] by (simp add: g_def W_def H_def)
  show ?thesis
    unfolding wellFormed_def Let_def f
    using w h ok se
    by (simp add: sameEntries_def W_def H_def acrossEntryAt_def downEntryAt_def comp_def)
qed

section \<open>Coverage\<close>

lemma wellFormed_acrossCells:
  assumes "wellFormed puz"
  shows "map (\<lambda>e. map index (cells e)) (across puz) = acrossCells (width puz) (height puz) (grid puz)"
proof -
  have "map (\<lambda>e. map index (cells e)) (across puz) = map (map index) (map cells (across puz))"
    by simp
  also have "\<dots> = acrossCells (width puz) (height puz) (grid puz)"
    using assms unfolding wellFormed_def Let_def acrossCells_def by simp
  finally show ?thesis .
qed

lemma wellFormed_downCells:
  assumes "wellFormed puz"
  shows "map (\<lambda>e. map index (cells e)) (down puz) = downCells (width puz) (height puz) (grid puz)"
proof -
  have "map (\<lambda>e. map index (cells e)) (down puz) = map (map index) (map cells (down puz))"
    by simp
  also have "\<dots> = downCells (width puz) (height puz) (grid puz)"
    using assms unfolding wellFormed_def Let_def downCells_def by simp
  finally show ?thesis .
qed

lemma filter_map_length: "length (filter P (map f xs)) = length (filter (\<lambda>x. P (f x)) xs)"
  by (induction xs) auto

lemma wellFormed_gridOK: "wellFormed puz \<Longrightarrow> gridOK (width puz) (height puz) (grid puz)"
  by (simp add: wellFormed_def Let_def)

lemma across_cover_count:
  assumes wf: "wellFormed puz" and idx: "idx < width puz * height puz"
  shows "length (filter (\<lambda>e. idx \<in> set (map index (cells e))) (across puz)) =
           (if isBlock (grid puz ! idx) then 0 else 1)"
    and "count_list (concat (map (\<lambda>e. map index (cells e)) (across puz))) idx =
           (if isBlock (grid puz ! idx) then 0 else 1)"
proof -
  note ok = wellFormed_gridOK [OF wf]
  have mem: "idx \<in> set (concat (acrossCells (width puz) (height puz) (grid puz))) \<longleftrightarrow>
             \<not> isBlock (grid puz ! idx)"
    unfolding set_acrossCells [OF ok] using idx by simp
  have "length (filter (\<lambda>e. idx \<in> set (map index (cells e))) (across puz)) =
        length (filter (\<lambda>xs. idx \<in> set xs) (map (\<lambda>e. map index (cells e)) (across puz)))"
    by (simp add: filter_map comp_def)
  also have "\<dots> = (if idx \<in> set (concat (acrossCells (width puz) (height puz) (grid puz))) then 1 else 0)"
    unfolding wellFormed_acrossCells [OF wf]
    by (rule filter_member_concat) (rule distinct_acrossCells [OF ok])
  finally show "length (filter (\<lambda>e. idx \<in> set (map index (cells e))) (across puz)) =
           (if isBlock (grid puz ! idx) then 0 else 1)"
    unfolding mem by simp
  show "count_list (concat (map (\<lambda>e. map index (cells e)) (across puz))) idx =
           (if isBlock (grid puz ! idx) then 0 else 1)"
    unfolding wellFormed_acrossCells [OF wf] count_list_distinct [OF distinct_acrossCells [OF ok]] mem
    by simp
qed

lemma down_cover_count:
  assumes wf: "wellFormed puz" and idx: "idx < width puz * height puz"
  shows "length (filter (\<lambda>e. idx \<in> set (map index (cells e))) (down puz)) =
           (if isBlock (grid puz ! idx) then 0 else 1)"
    and "count_list (concat (map (\<lambda>e. map index (cells e)) (down puz))) idx =
           (if isBlock (grid puz ! idx) then 0 else 1)"
proof -
  note ok = wellFormed_gridOK [OF wf]
  have mem: "idx \<in> set (concat (downCells (width puz) (height puz) (grid puz))) \<longleftrightarrow>
             \<not> isBlock (grid puz ! idx)"
    unfolding set_downCells [OF ok] using idx by simp
  have "length (filter (\<lambda>e. idx \<in> set (map index (cells e))) (down puz)) =
        length (filter (\<lambda>xs. idx \<in> set xs) (map (\<lambda>e. map index (cells e)) (down puz)))"
    by (simp add: filter_map comp_def)
  also have "\<dots> = (if idx \<in> set (concat (downCells (width puz) (height puz) (grid puz))) then 1 else 0)"
    unfolding wellFormed_downCells [OF wf]
    by (rule filter_member_concat) (rule distinct_downCells [OF ok])
  finally show "length (filter (\<lambda>e. idx \<in> set (map index (cells e))) (down puz)) =
           (if isBlock (grid puz ! idx) then 0 else 1)"
    unfolding mem by simp
  show "count_list (concat (map (\<lambda>e. map index (cells e)) (down puz))) idx =
           (if isBlock (grid puz ! idx) then 0 else 1)"
    unfolding wellFormed_downCells [OF wf] count_list_distinct [OF distinct_downCells [OF ok]] mem
    by simp
qed

text \<open>The cells an entry lists are cells of the grid, at their own index.\<close>

lemma acrossRun_cells:
  assumes ok: "gridOK w h g" and r: "r < h" and c: "cell \<in> set (acrossRun w h g r c)"
  shows "index cell < w * h \<and> g ! index cell = cell"
proof -
  from c obtain cc where cc: "cc \<in> set (lineRun (isBlockAt w h g r) w c)" and e: "cell = g ! (r * w + cc)"
    unfolding acrossRun_lineRun by auto
  from cc have "cc < w" by (simp add: set_lineRun)
  with r have "r * w + cc < w * h" by (rule pos_bound)
  with ok e show ?thesis by (simp add: gridOK_def)
qed

lemma downRun_cells:
  assumes ok: "gridOK w h g" and c: "c < w" and m: "cell \<in> set (downRun w h g r c)"
  shows "index cell < w * h \<and> g ! index cell = cell"
proof -
  from m obtain rr where rr: "rr \<in> set (lineRun (\<lambda>rr. isBlockAt w h g rr c) h r)" and e: "cell = g ! (rr * w + c)"
    unfolding downRun_lineRun by auto
  from rr have "rr < h" by (simp add: set_lineRun)
  then have "rr * w + c < w * h" using c by (rule pos_bound)
  with ok e show ?thesis by (simp add: gridOK_def)
qed

lemma wellFormed_entry_cells:
  assumes wf: "wellFormed puz" and e: "e \<in> set (across puz) \<union> set (down puz)"
    and c: "cell \<in> set (cells e)"
  shows "index cell < width puz * height puz \<and> grid puz ! index cell = cell"
proof -
  note ok = wellFormed_gridOK [OF wf]
  define w h g where "w = width puz" and "h = height puz" and "g = grid puz"
  have w: "0 < w" using wf by (simp add: wellFormed_def Let_def w_def)
  from e show ?thesis
  proof
    assume "e \<in> set (across puz)"
    then have "cells e \<in> set (map cells (across puz))" by simp
    then obtain i where i: "i < w * h" and ce: "cells e = acrossRun w h g (i div w) (i mod w)"
      using wf unfolding wellFormed_def Let_def w_def h_def g_def by auto
    from i w have "i div w < h" by (simp add: div_bound)
    with ok c ce show ?thesis
      using acrossRun_cells [of w h g "i div w" cell "i mod w"] by (simp add: w_def h_def g_def)
  next
    assume "e \<in> set (down puz)"
    then have "cells e \<in> set (map cells (down puz))" by simp
    then obtain i where i: "i < w * h" and ce: "cells e = downRun w h g (i div w) (i mod w)"
      using wf unfolding wellFormed_def Let_def w_def h_def g_def by auto
    from w have "i mod w < w" by simp
    with ok c ce show ?thesis
      using downRun_cells [of w h g "i mod w" cell "i div w"] by (simp add: w_def h_def g_def)
  qed
qed

text \<open>
  C6. In a puzzle the decoder returns, every cell that is not a block has its index
  in the cell list of exactly one across entry and of exactly one down entry, and
  there it stands once; the index of a block stands in no cell list. Every cell an
  entry lists is the cell of the grid at its index.
\<close>

theorem entries_cover_open_cells:
  assumes "parsePuz toUpperCase bytes opts = Inr puz"
  shows "(\<forall>idx<width puz * height puz.
            length (filter (\<lambda>e. idx \<in> set (map index (cells e))) (across puz)) =
              (if isBlock (grid puz ! idx) then 0 else 1) \<and>
            count_list (concat (map (\<lambda>e. map index (cells e)) (across puz))) idx =
              (if isBlock (grid puz ! idx) then 0 else 1) \<and>
            length (filter (\<lambda>e. idx \<in> set (map index (cells e))) (down puz)) =
              (if isBlock (grid puz ! idx) then 0 else 1) \<and>
            count_list (concat (map (\<lambda>e. map index (cells e)) (down puz))) idx =
              (if isBlock (grid puz ! idx) then 0 else 1)) \<and>
         (\<forall>e\<in>set (across puz) \<union> set (down puz). \<forall>cell\<in>set (cells e).
            index cell < width puz * height puz \<and> grid puz ! index cell = cell) \<and>
         length (grid puz) = width puz * height puz"
proof -
  note wf = parsePuz_wellFormed [OF assms]
  have "length (grid puz) = width puz * height puz"
    using wellFormed_gridOK [OF wf] by (simp add: gridOK_def)
  then show ?thesis
    using across_cover_count [OF wf] down_cover_count [OF wf] wellFormed_entry_cells [OF wf]
    by blast
qed

section \<open>Numbering\<close>

lemma filter_upt_split:
  "i \<le> n \<Longrightarrow> filter P [0..<n] = filter P [0..<i] @ filter P [i..<n]"
  by (metis filter_append le0 upt_add_eq_append le_add_diff_inverse)

lemma numberAt_mono: "i \<le> i' \<Longrightarrow> numberAt w h g i \<le> numberAt w h g i'"
  by (simp add: numberAt_def filter_upt_split [of i i'])

lemma numberAt_strict:
  assumes "i < i'" "isStartAt w h g i"
  shows "numberAt w h g i < numberAt w h g i'"
proof -
  have "i \<in> set (filter (isStartAt w h g) [i..<i'])" using assms by simp
  then have "0 < length (filter (isStartAt w h g) [i..<i'])"
    by (metis length_pos_if_in_set)
  then show ?thesis using assms(1) by (simp add: numberAt_def filter_upt_split [of i i'])
qed

lemma numberAt_less_iff:
  assumes "isStartAt w h g i" "isStartAt w h g i'"
  shows "numberAt w h g i < numberAt w h g i' \<longleftrightarrow> i < i'"
proof
  assume "i < i'" then show "numberAt w h g i < numberAt w h g i'"
    using assms(1) by (rule numberAt_strict)
next
  assume n: "numberAt w h g i < numberAt w h g i'"
  show "i < i'"
  proof (rule ccontr)
    assume "\<not> i < i'"
    then have "i' \<le> i" by simp
    then have "numberAt w h g i' \<le> numberAt w h g i" by (rule numberAt_mono)
    with n show False by simp
  qed
qed

lemma filter_upt_rank:
  "k < length (filter P [0..<n]) \<Longrightarrow> length (filter P [0..<filter P [0..<n] ! k]) = k"
proof (induction n)
  case 0
  then show ?case by simp
next
  case (Suc n)
  show ?case
  proof (cases "k < length (filter P [0..<n])")
    case True
    then have "filter P [0..<Suc n] ! k = filter P [0..<n] ! k"
      by (simp add: nth_append)
    with True Suc.IH show ?thesis by simp
  next
    case False
    with Suc.prems have "P n" and k: "k = length (filter P [0..<n])"
      by (auto split: if_splits)
    then have "filter P [0..<Suc n] ! k = n" by (simp add: nth_append)
    with k show ?thesis by simp
  qed
qed

lemma numberAt_starts:
  "map (numberAt w h g) (filter (isStartAt w h g) [0..<n]) =
   [1..<Suc (length (filter (isStartAt w h g) [0..<n]))]"
proof -
  define xs where "xs = filter (isStartAt w h g) [0..<n]"
  have len: "length [1..<Suc (length xs)] = length xs"
    by (simp only: length_upt diff_Suc_1 One_nat_def)
  have "map (numberAt w h g) xs ! k = [1..<Suc (length xs)] ! k" if "k < length xs" for k
  proof -
    have "numberAt w h g (xs ! k) = Suc k"
      using that filter_upt_rank [of k "isStartAt w h g" n] by (simp add: numberAt_def xs_def)
    moreover have "[1..<Suc (length xs)] ! k = 1 + k"
      using that by (intro nth_upt) simp
    ultimately show ?thesis using that by simp
  qed
  then have "map (numberAt w h g) xs = [1..<Suc (length xs)]"
    using len by (intro nth_equalityI) simp_all
  then show ?thesis by (simp add: xs_def)
qed

text \<open>The first cell of a run that starts at an open cell.\<close>

lemma acrossRun_hd:
  assumes "gridOK w h g" "i < w * h" "\<not> isBlock (g ! i)"
  shows "acrossRun w h g (i div w) (i mod w) \<noteq> [] \<and> index (hd (acrossRun w h g (i div w) (i mod w))) = i"
proof -
  from assms have w: "0 < w" and r: "i div w < h" by (simp_all add: gridOK_def div_bound)
  then have c: "i mod w < w" by simp
  have "\<not> isBlockAt w h g (i div w) (i mod w)" using assms open_cell by simp
  with c have "acrossRun w h g (i div w) (i mod w) =
      g ! (i div w * w + i mod w) # acrossRun w h g (i div w) (Suc (i mod w))"
    by (subst acrossRun.simps) simp
  with assms show ?thesis by (simp add: gridOK_def)
qed

lemma downRun_hd:
  assumes "gridOK w h g" "i < w * h" "\<not> isBlock (g ! i)"
  shows "downRun w h g (i div w) (i mod w) \<noteq> [] \<and> index (hd (downRun w h g (i div w) (i mod w))) = i"
proof -
  from assms have w: "0 < w" and r: "i div w < h" by (simp_all add: gridOK_def div_bound)
  then have c: "i mod w < w" by simp
  have "\<not> isBlockAt w h g (i div w) (i mod w)" using assms open_cell by simp
  with r have "downRun w h g (i div w) (i mod w) =
      g ! (i div w * w + i mod w) # downRun w h g (Suc (i div w)) (i mod w)"
    by (subst downRun.simps) simp
  with assms show ?thesis by (simp add: gridOK_def)
qed

lemma wellFormed_across_first:
  assumes wf: "wellFormed puz"
  shows "map firstCell (across puz) =
           filter (startsAcrossAt (width puz) (height puz) (grid puz)) [0..<width puz * height puz]"
    and "\<forall>e\<in>set (across puz). cells e \<noteq> []"
proof -
  note ok = wellFormed_gridOK [OF wf]
  define w h g where "w = width puz" and "h = height puz" and "g = grid puz"
  have c: "map cells (across puz) =
      map (\<lambda>i. acrossRun w h g (i div w) (i mod w)) (filter (startsAcrossAt w h g) [0..<w * h])"
    using wf by (simp add: wellFormed_def Let_def w_def h_def g_def)
  have hd: "acrossRun w h g (i div w) (i mod w) \<noteq> [] \<and> index (hd (acrossRun w h g (i div w) (i mod w))) = i"
    if "i \<in> set (filter (startsAcrossAt w h g) [0..<w * h])" for i
    using that ok acrossRun_hd [of w h g i] by (simp add: startsAcrossAt_def w_def h_def g_def)
  have "map firstCell (across puz) = map (\<lambda>cs. index (hd cs)) (map cells (across puz))"
    by (simp add: firstCell_def comp_def)
  also have "\<dots> = map (\<lambda>i. i) (filter (startsAcrossAt w h g) [0..<w * h])"
    unfolding c map_map comp_def using hd by (intro map_cong refl) simp
  finally show "map firstCell (across puz) =
           filter (startsAcrossAt (width puz) (height puz) (grid puz)) [0..<width puz * height puz]"
    by (simp add: w_def h_def g_def)
  have "\<forall>cs\<in>set (map cells (across puz)). cs \<noteq> []"
    unfolding c using hd by auto
  then show "\<forall>e\<in>set (across puz). cells e \<noteq> []" by simp
qed

lemma wellFormed_down_first:
  assumes wf: "wellFormed puz"
  shows "map firstCell (down puz) =
           filter (startsDownAt (width puz) (height puz) (grid puz)) [0..<width puz * height puz]"
    and "\<forall>e\<in>set (down puz). cells e \<noteq> []"
proof -
  note ok = wellFormed_gridOK [OF wf]
  define w h g where "w = width puz" and "h = height puz" and "g = grid puz"
  have c: "map cells (down puz) =
      map (\<lambda>i. downRun w h g (i div w) (i mod w)) (filter (startsDownAt w h g) [0..<w * h])"
    using wf by (simp add: wellFormed_def Let_def w_def h_def g_def)
  have hd: "downRun w h g (i div w) (i mod w) \<noteq> [] \<and> index (hd (downRun w h g (i div w) (i mod w))) = i"
    if "i \<in> set (filter (startsDownAt w h g) [0..<w * h])" for i
    using that ok downRun_hd [of w h g i] by (simp add: startsDownAt_def w_def h_def g_def)
  have "map firstCell (down puz) = map (\<lambda>cs. index (hd cs)) (map cells (down puz))"
    by (simp add: firstCell_def comp_def)
  also have "\<dots> = map (\<lambda>i. i) (filter (startsDownAt w h g) [0..<w * h])"
    unfolding c map_map comp_def using hd by (intro map_cong refl) simp
  finally show "map firstCell (down puz) =
           filter (startsDownAt (width puz) (height puz) (grid puz)) [0..<width puz * height puz]"
    by (simp add: w_def h_def g_def)
  have "\<forall>cs\<in>set (map cells (down puz)). cs \<noteq> []"
    unfolding c using hd by auto
  then show "\<forall>e\<in>set (down puz). cells e \<noteq> []" by simp
qed

lemma map_pair_lookup:
  assumes "map f xs = ys" "map g xs = map n ys"
  shows "\<forall>x\<in>set xs. g x = n (f x)"
proof -
  have "map n ys = map (\<lambda>x. n (f x)) xs" unfolding assms(1) [symmetric] by simp
  with assms(2) have "map g xs = map (\<lambda>x. n (f x)) xs" by simp
  then show ?thesis by (simp add: map_eq_conv)
qed

lemma starts_union:
  "set (filter (startsAcrossAt w h g) [0..<n]) \<union> set (filter (startsDownAt w h g) [0..<n]) =
   set (filter (isStartAt w h g) [0..<n])"
  by (auto simp: isStartAt_def)

lemma wellFormed_numbers:
  assumes wf: "wellFormed puz" and e: "e \<in> set (across puz) \<union> set (down puz)"
  shows "number e = numberAt (width puz) (height puz) (grid puz) (firstCell e)"
    and "isStartAt (width puz) (height puz) (grid puz) (firstCell e)"
    and "firstCell e < width puz * height puz"
proof -
  define w h g where "w = width puz" and "h = height puz" and "g = grid puz"
  have na: "\<forall>x\<in>set (across puz). number x = numberAt w h g (firstCell x)"
    using wellFormed_across_first(1) [OF wf] wf
    by (intro map_pair_lookup [where ys = "filter (startsAcrossAt w h g) [0..<w * h]"])
      (simp_all add: wellFormed_def Let_def w_def h_def g_def)
  have nd: "\<forall>x\<in>set (down puz). number x = numberAt w h g (firstCell x)"
    using wellFormed_down_first(1) [OF wf] wf
    by (intro map_pair_lookup [where ys = "filter (startsDownAt w h g) [0..<w * h]"])
      (simp_all add: wellFormed_def Let_def w_def h_def g_def)
  from e na nd show "number e = numberAt (width puz) (height puz) (grid puz) (firstCell e)"
    by (auto simp: w_def h_def g_def)
  have "firstCell e \<in> set (map firstCell (across puz)) \<union> set (map firstCell (down puz))"
    using e by auto
  then have "firstCell e \<in> set (filter (isStartAt w h g) [0..<w * h])"
    unfolding wellFormed_across_first(1) [OF wf] wellFormed_down_first(1) [OF wf]
    by (simp only: starts_union w_def h_def g_def)
  then show "isStartAt (width puz) (height puz) (grid puz) (firstCell e)"
    and "firstCell e < width puz * height puz"
    by (simp_all add: w_def h_def g_def)
qed

lemma sorted_filter_upt: "sorted_wrt (<) (filter P [0..<n])"
  by (rule sorted_wrt_filter) simp

text \<open>Which cells start an entry, and the number of an entry, read off the grid.\<close>

lemma startsAcrossAt_grid:
  assumes "0 < w" "i < w * h"
  shows "startsAcrossAt w h g i =
           (\<not> isBlock (g ! i) \<and> (i mod w = 0 \<or> isBlock (g ! (i - 1))))"
proof (cases "i mod w = 0")
  case True
  then show ?thesis by (simp add: startsAcrossAt_def)
next
  case False
  have r: "i div w < h" using assms by (rule div_bound)
  have c: "i mod w - 1 < w" using assms(1) by (simp add: less_imp_diff_less)
  have "i div w * w + (i mod w - 1) = (i div w * w + i mod w) - 1"
    using False by simp
  also have "\<dots> = i - 1" by simp
  finally have "isBlockAt w h g (i div w) (i mod w - 1) = isBlock (g ! (i - 1))"
    using isBlockAt_in [OF r c, of g] by simp
  with False show ?thesis by (simp add: startsAcrossAt_def)
qed

lemma startsDownAt_grid:
  assumes "0 < w" "i < w * h"
  shows "startsDownAt w h g i =
           (\<not> isBlock (g ! i) \<and> (i < w \<or> isBlock (g ! (i - w))))"
proof (cases "i < w")
  case True
  then show ?thesis by (simp add: startsDownAt_def)
next
  case False
  then have d: "i div w \<noteq> 0" using assms(1) by (simp add: div_eq_0_iff)
  have r: "i div w - 1 < h" using div_bound [OF assms] by simp
  have c: "i mod w < w" using assms(1) by simp
  have "(i div w - 1) * w + i mod w = (i div w * w + i mod w) - w"
    using d by (simp add: diff_mult_distrib)
  also have "\<dots> = i - w" by simp
  finally have "isBlockAt w h g (i div w - 1) (i mod w) = isBlock (g ! (i - w))"
    using isBlockAt_in [OF r c, of g] by simp
  with False d show ?thesis by (simp add: startsDownAt_def)
qed

lemma wellFormed_starts:
  assumes wf: "wellFormed puz" and i: "i < width puz * height puz"
  shows "(i \<in> firstCell ` set (across puz)) =
           (\<not> isBlock (grid puz ! i) \<and> (i mod width puz = 0 \<or> isBlock (grid puz ! (i - 1))))"
    and "(i \<in> firstCell ` set (down puz)) =
           (\<not> isBlock (grid puz ! i) \<and> (i < width puz \<or> isBlock (grid puz ! (i - width puz))))"
proof -
  have w: "0 < width puz" using wf by (simp add: wellFormed_def Let_def)
  have "firstCell ` set (across puz) = set (map firstCell (across puz))" by simp
  also have "\<dots> = set (filter (startsAcrossAt (width puz) (height puz) (grid puz))
                        [0..<width puz * height puz])"
    by (simp only: wellFormed_across_first(1) [OF wf])
  finally show "(i \<in> firstCell ` set (across puz)) =
           (\<not> isBlock (grid puz ! i) \<and> (i mod width puz = 0 \<or> isBlock (grid puz ! (i - 1))))"
    using i startsAcrossAt_grid [OF w i, of "grid puz"] by simp
  have "firstCell ` set (down puz) = set (map firstCell (down puz))" by simp
  also have "\<dots> = set (filter (startsDownAt (width puz) (height puz) (grid puz))
                        [0..<width puz * height puz])"
    by (simp only: wellFormed_down_first(1) [OF wf])
  finally show "(i \<in> firstCell ` set (down puz)) =
           (\<not> isBlock (grid puz ! i) \<and> (i < width puz \<or> isBlock (grid puz ! (i - width puz))))"
    using i startsDownAt_grid [OF w i, of "grid puz"] by simp
qed

lemma wellFormed_number_count:
  assumes wf: "wellFormed puz" and e: "e \<in> set (across puz) \<union> set (down puz)"
  shows "number e =
           Suc (card {i. i < firstCell e \<and> \<not> isBlock (grid puz ! i) \<and>
                         (i mod width puz = 0 \<or> isBlock (grid puz ! (i - 1)) \<or>
                          i < width puz \<or> isBlock (grid puz ! (i - width puz)))})"
proof -
  define w h g where "w = width puz" and "h = height puz" and "g = grid puz"
  define s where "s = firstCell e"
  have w: "0 < w" using wf by (simp add: wellFormed_def Let_def w_def)
  have n: "number e = numberAt w h g s" and b: "s < w * h"
    using wellFormed_numbers [OF wf e] by (simp_all add: w_def h_def g_def s_def)
  have st: "isStartAt w h g i =
              (\<not> isBlock (g ! i) \<and> (i mod w = 0 \<or> isBlock (g ! (i - 1)) \<or>
                                      i < w \<or> isBlock (g ! (i - w))))"
    if "i < s" for i
  proof -
    from that b have "i < w * h" by simp
    then show ?thesis
      using startsAcrossAt_grid [OF w, of i h g] startsDownAt_grid [OF w, of i h g]
      by (auto simp: isStartAt_def)
  qed
  have "{i. i < s \<and> \<not> isBlock (g ! i) \<and> (i mod w = 0 \<or> isBlock (g ! (i - 1)) \<or>
                i < w \<or> isBlock (g ! (i - w)))} =
        set (filter (isStartAt w h g) [0..<s])"
    using st by auto
  moreover have "distinct (filter (isStartAt w h g) [0..<s])" by simp
  ultimately have "card {i. i < s \<and> \<not> isBlock (g ! i) \<and> (i mod w = 0 \<or> isBlock (g ! (i - 1)) \<or>
                i < w \<or> isBlock (g ! (i - w)))} = length (filter (isStartAt w h g) [0..<s])"
    by (simp only: distinct_card)
  then show ?thesis
    unfolding n numberAt_def by (simp only: w_def h_def g_def s_def)
qed

text \<open>
  C5. In a puzzle the decoder returns, the numbers of the entries follow the
  row-major order of their first cells: of two entries the one whose first cell comes
  earlier has the smaller number, and two entries with the same first cell have the
  same number. The numbers used are exactly \<open>1, ..., k\<close> for the \<open>k\<close> cells that start
  an entry. An across entry and a down entry that start at the same cell share its
  number. Both entry lists are in scan order. The cells that start an entry are
  those of the grid: cell \<open>i\<close> is the first cell of an across entry exactly when it is
  not a block and is in column 0 or has a block to its left, and of a down entry
  exactly when it is not a block and is in row 0 or has a block above it. The number
  of an entry is one more than the number of such cells before its first cell.
\<close>

theorem numbering_sequential:
  assumes "parsePuz toUpperCase bytes opts = Inr puz"
  shows "(\<forall>e\<in>set (across puz) \<union> set (down puz). \<forall>e'\<in>set (across puz) \<union> set (down puz).
            (number e < number e') = (firstCell e < firstCell e')) \<and>
         number ` (set (across puz) \<union> set (down puz)) =
           {n. 1 \<le> n \<and> n \<le> card (firstCell ` (set (across puz) \<union> set (down puz)))} \<and>
         (\<forall>a\<in>set (across puz). \<forall>d\<in>set (down puz).
            firstCell a = firstCell d \<longrightarrow> number a = number d) \<and>
         sorted_wrt (<) (map firstCell (across puz)) \<and>
         sorted_wrt (<) (map firstCell (down puz)) \<and>
         length (grid puz) = width puz * height puz \<and>
         (\<forall>i<width puz * height puz.
            (i \<in> firstCell ` set (across puz)) =
              (\<not> isBlock (grid puz ! i) \<and>
               (i mod width puz = 0 \<or> isBlock (grid puz ! (i - 1))))) \<and>
         (\<forall>i<width puz * height puz.
            (i \<in> firstCell ` set (down puz)) =
              (\<not> isBlock (grid puz ! i) \<and>
               (i < width puz \<or> isBlock (grid puz ! (i - width puz))))) \<and>
         (\<forall>e\<in>set (across puz) \<union> set (down puz).
            firstCell e < width puz * height puz \<and>
            number e =
              Suc (card {i. i < firstCell e \<and> \<not> isBlock (grid puz ! i) \<and>
                            (i mod width puz = 0 \<or> isBlock (grid puz ! (i - 1)) \<or>
                             i < width puz \<or> isBlock (grid puz ! (i - width puz)))}))"
proof -
  note wf = parsePuz_wellFormed [OF assms]
  define w h g where "w = width puz" and "h = height puz" and "g = grid puz"
  define es where "es = set (across puz) \<union> set (down puz)"
  define ss where "ss = filter (isStartAt w h g) [0..<w * h]"
  have num: "number e = numberAt w h g (firstCell e)" and st: "isStartAt w h g (firstCell e)"
    if "e \<in> es" for e
    using that wellFormed_numbers [OF wf, of e] by (simp_all add: es_def w_def h_def g_def)
  have ord: "(number e < number e') = (firstCell e < firstCell e')" if "e \<in> es" "e' \<in> es" for e e'
    using that by (simp add: num numberAt_less_iff st)
  have firsts: "firstCell ` es = set ss"
  proof -
    have "firstCell ` es = set (map firstCell (across puz)) \<union> set (map firstCell (down puz))"
      by (auto simp: es_def)
    then show ?thesis
      unfolding wellFormed_across_first(1) [OF wf] wellFormed_down_first(1) [OF wf]
      by (simp only: starts_union ss_def w_def h_def g_def)
  qed
  have "number ` es = numberAt w h g ` firstCell ` es"
    using num by (auto simp: image_iff)
  also have "\<dots> = set (map (numberAt w h g) ss)" by (simp add: firsts)
  also have "\<dots> = set [1..<Suc (length ss)]" by (simp only: ss_def numberAt_starts)
  also have "\<dots> = {n. 1 \<le> n \<and> n \<le> length ss}" by auto
  finally have nums: "number ` es = {n. 1 \<le> n \<and> n \<le> length ss}" .
  have "distinct ss" by (simp add: ss_def)
  then have "card (firstCell ` es) = length ss"
    unfolding firsts by (rule distinct_card)
  with nums have range: "number ` es = {n. 1 \<le> n \<and> n \<le> card (firstCell ` es)}" by simp
  have shared: "number a = number d" if "a \<in> set (across puz)" "d \<in> set (down puz)"
    "firstCell a = firstCell d" for a d
    using that num [of a] num [of d] by (simp add: es_def)
  have srt: "sorted_wrt (<) (map firstCell (across puz))" "sorted_wrt (<) (map firstCell (down puz))"
    unfolding wellFormed_across_first(1) [OF wf] wellFormed_down_first(1) [OF wf]
    by (rule sorted_filter_upt)+
  have len: "length (grid puz) = width puz * height puz"
    using wellFormed_gridOK [OF wf] by (simp add: gridOK_def)
  have sa: "\<forall>i<width puz * height puz.
            (i \<in> firstCell ` set (across puz)) =
              (\<not> isBlock (grid puz ! i) \<and>
               (i mod width puz = 0 \<or> isBlock (grid puz ! (i - 1))))"
    using wellFormed_starts(1) [OF wf] by blast
  have sd: "\<forall>i<width puz * height puz.
            (i \<in> firstCell ` set (down puz)) =
              (\<not> isBlock (grid puz ! i) \<and>
               (i < width puz \<or> isBlock (grid puz ! (i - width puz))))"
    using wellFormed_starts(2) [OF wf] by blast
  have cnt: "\<forall>e\<in>es.
            firstCell e < width puz * height puz \<and>
            number e =
              Suc (card {i. i < firstCell e \<and> \<not> isBlock (grid puz ! i) \<and>
                            (i mod width puz = 0 \<or> isBlock (grid puz ! (i - 1)) \<or>
                             i < width puz \<or> isBlock (grid puz ! (i - width puz)))})"
    using wellFormed_numbers(3) [OF wf] wellFormed_number_count [OF wf]
    unfolding es_def by blast
  have o: "\<forall>e\<in>es. \<forall>e'\<in>es. (number e < number e') = (firstCell e < firstCell e')"
    using ord by blast
  have s: "\<forall>a\<in>set (across puz). \<forall>d\<in>set (down puz).
            firstCell a = firstCell d \<longrightarrow> number a = number d"
    using shared by blast
  show ?thesis
    using o range s srt len sa sd cnt unfolding es_def by (intro conjI)
qed

section \<open>Coverage and numbering on the sample files\<close>

text \<open>
  C6 on the row \<open>A.B\<close>: the block at cell 1 is in no entry, cell 2 is in one across
  and one down entry. The entries of the 3 by 2 grid are its two rows and its three
  columns.
\<close>

theorem entries_cover_open_cells_witness:
  "isBlock (grid parsedAxB ! 1) \<and> \<not> isBlock (grid parsedAxB ! 2) \<and>
   length (filter (\<lambda>e. 1 \<in> set (map index (cells e))) (across parsedAxB)) = 0 \<and>
   length (filter (\<lambda>e. 1 \<in> set (map index (cells e))) (down parsedAxB)) = 0 \<and>
   length (filter (\<lambda>e. 2 \<in> set (map index (cells e))) (across parsedAxB)) = 1 \<and>
   length (filter (\<lambda>e. 2 \<in> set (map index (cells e))) (down parsedAxB)) = 1 \<and>
   map (\<lambda>e. map index (cells e)) (across parsedGrid32) = [[0, 1, 2], [3, 4, 5]] \<and>
   map (\<lambda>e. map index (cells e)) (down parsedGrid32) = [[0, 3], [1, 4], [2, 5]]"
proof -
  have b: "isBlock (grid parsedAxB ! 1)" "\<not> isBlock (grid parsedAxB ! 2)"
    and n: "1 < width parsedAxB * height parsedAxB" "2 < width parsedAxB * height parsedAxB"
    and g: "map (\<lambda>e. map index (cells e)) (across parsedGrid32) = [[0, 1, 2], [3, 4, 5]]"
      "map (\<lambda>e. map index (cells e)) (down parsedGrid32) = [[0, 3], [1, 4], [2, 5]]"
    by code_simp+
  from entries_cover_open_cells [OF parsePuz_puzAxB] n b
  have "length (filter (\<lambda>e. 1 \<in> set (map index (cells e))) (across parsedAxB)) = 0"
    "length (filter (\<lambda>e. 1 \<in> set (map index (cells e))) (down parsedAxB)) = 0"
    "length (filter (\<lambda>e. 2 \<in> set (map index (cells e))) (across parsedAxB)) = 1"
    "length (filter (\<lambda>e. 2 \<in> set (map index (cells e))) (down parsedAxB)) = 1"
    by simp_all
  with b g show ?thesis by simp
qed

text \<open>
  C5 on the 3 by 2 grid: four cells start an entry, cells 0, 1, 2 and 3, and the
  numbers are 1 to 4; cell 0 starts an across and a down entry, both numbered 1. On
  the 2 by 2 grid \<open>A./.B\<close> the blocks at cells 1 and 2 make cell 3 the start of an
  across and of a down entry, both numbered 2; cells 1 and 2 start nothing.
\<close>

theorem numbering_sequential_witness:
  "number ` (set (across parsedGrid32) \<union> set (down parsedGrid32)) =
     {n. 1 \<le> n \<and> n \<le> card (firstCell ` (set (across parsedGrid32) \<union> set (down parsedGrid32)))} \<and>
   sorted_wrt (<) (map firstCell (across parsedGrid32)) \<and>
   map firstCell (across parsedGrid32) = [0, 3] \<and> map number (across parsedGrid32) = [1, 4] \<and>
   map firstCell (down parsedGrid32) = [0, 1, 2] \<and> map number (down parsedGrid32) = [1, 2, 3] \<and>
   map isBlock (grid parsedDiag) = [False, True, True, False] \<and>
   3 \<in> firstCell ` set (across parsedDiag) \<and> 3 \<in> firstCell ` set (down parsedDiag) \<and>
   1 \<notin> firstCell ` set (across parsedDiag) \<and> 2 \<notin> firstCell ` set (down parsedDiag) \<and>
   map firstCell (across parsedDiag) = [0, 3] \<and> map number (across parsedDiag) = [1, 2] \<and>
   map firstCell (down parsedDiag) = [0, 3] \<and> map number (down parsedDiag) = [1, 2]"
proof -
  have v: "map firstCell (across parsedGrid32) = [0, 3]" "map number (across parsedGrid32) = [1, 4]"
    "map firstCell (down parsedGrid32) = [0, 1, 2]" "map number (down parsedGrid32) = [1, 2, 3]"
    by code_simp+
  have d: "map firstCell (across parsedDiag) = [0, 3]" "map number (across parsedDiag) = [1, 2]"
    "map firstCell (down parsedDiag) = [0, 3]" "map number (down parsedDiag) = [1, 2]"
    by code_simp+
  have g: "width parsedDiag = 2" "height parsedDiag = 2"
    "map isBlock (grid parsedDiag) = [False, True, True, False]"
    by code_simp+
  have b: "\<not> isBlock (grid parsedDiag ! 3)" "isBlock (grid parsedDiag ! 2)"
    "isBlock (grid parsedDiag ! 1)" "\<not> isBlock (grid parsedDiag ! 0)"
    by code_simp+
  note t = numbering_sequential [OF parsePuz_puzDiag]
  note t6 = t [THEN conjunct2, THEN conjunct2, THEN conjunct2, THEN conjunct2, THEN conjunct2,
      THEN conjunct2]
  have sa: "(i \<in> firstCell ` set (across parsedDiag)) =
              (\<not> isBlock (grid parsedDiag ! i) \<and> (i mod 2 = 0 \<or> isBlock (grid parsedDiag ! (i - 1))))"
    if "i < 4" for i
    using t6 [THEN conjunct1, rule_format, of i] that by (simp add: g)
  have sd: "(i \<in> firstCell ` set (down parsedDiag)) =
              (\<not> isBlock (grid parsedDiag ! i) \<and> (i < 2 \<or> isBlock (grid parsedDiag ! (i - 2))))"
    if "i < 4" for i
    using t6 [THEN conjunct2, THEN conjunct1, rule_format, of i] that by (simp add: g)
  have m: "3 \<in> firstCell ` set (across parsedDiag)" "3 \<in> firstCell ` set (down parsedDiag)"
    "1 \<notin> firstCell ` set (across parsedDiag)" "2 \<notin> firstCell ` set (down parsedDiag)"
    using sa [of 3] sd [of 3] sa [of 1] sd [of 2] b by simp_all
  note u = numbering_sequential [OF parsePuz_puzGrid32]
  have r: "number ` (set (across parsedGrid32) \<union> set (down parsedGrid32)) =
     {n. 1 \<le> n \<and> n \<le> card (firstCell ` (set (across parsedGrid32) \<union> set (down parsedGrid32)))}"
    "sorted_wrt (<) (map firstCell (across parsedGrid32))"
    using u [THEN conjunct2, THEN conjunct1]
      u [THEN conjunct2, THEN conjunct2, THEN conjunct2, THEN conjunct1] .
  show ?thesis using r v d g(3) m by (intro conjI)
qed

section \<open>Jumping to a clue\<close>

lemma jsRem_norm:
  assumes "0 < n"
  shows "jsRem (jsRem k n + n) n = k mod n"
proof -
  have r: "jsRem a n = a mod n" if "0 \<le> a" for a
    using that assms by (cases "a = 0") (simp_all add: jsRem_def)
  show ?thesis
  proof (cases "0 \<le> k")
    case True
    then have "jsRem k n = k mod n" by (rule r)
    moreover have "0 \<le> k mod n + n" using assms by (simp add: add_nonneg_nonneg)
    ultimately show ?thesis by (simp add: r)
  next
    case False
    then have k: "k < 0" by simp
    then have "jsRem k n = - ((- k) mod n)" using assms by (simp add: jsRem_def)
    moreover have "(- k) mod n < n" using assms by simp
    ultimately have nn: "0 \<le> jsRem k n + n" and e: "jsRem k n + n = - ((- k) mod n) + n" by simp_all
    have "jsRem (jsRem k n + n) n = (- ((- k) mod n) + n) mod n"
      using r [OF nn] e by simp
    also have "\<dots> = (- ((- k) mod n)) mod n" by simp
    also have "\<dots> = (- (- k)) mod n" by (rule mod_minus_eq)
    finally show ?thesis by simp
  qed
qed

lemma goToClue_eq:
  assumes "\<forall>e\<in>set (if dir = Across then across puz else down puz). cells e \<noteq> []"
  shows "goToClue puz dir clueIndex st =
     (if (if dir = Across then across puz else down puz) = [] then Inr st
      else Inr (st\<lparr>mode := dir,
              activeIndex := Some (firstCell ((if dir = Across then across puz else down puz) !
                 nat (clueIndex mod int (length (if dir = Across then across puz else down puz)))))\<rparr>))"
proof -
  define arr where "arr = (if dir = Across then across puz else down puz)"
  show ?thesis
  proof (cases "arr = []")
    case True
    then show ?thesis by (simp add: goToClue_def Let_def arr_def)
  next
    case False
    define n where "n = int (length arr)"
    from False have n: "0 < n" by (simp add: n_def)
    have norm: "jsRem (jsRem clueIndex n + n) n = clueIndex mod n" using n by (rule jsRem_norm)
    have lo: "0 \<le> clueIndex mod n" and hi: "clueIndex mod n < n" using n by simp_all
    then have "nat (clueIndex mod n) < length arr" by (simp add: n_def)
    then have "arr ! nat (clueIndex mod n) \<in> set arr" by simp
    with assms have "cells (arr ! nat (clueIndex mod n)) \<noteq> []" by (simp add: arr_def)
    then obtain c cs where c: "cells (arr ! nat (clueIndex mod n)) = c # cs"
      by (cases "cells (arr ! nat (clueIndex mod n))") auto
    have "goToClue puz dir clueIndex st = Inr (st\<lparr>mode := dir, activeIndex := Some (index c)\<rparr>)"
      using False lo hi c norm
      by (simp add: goToClue_def Let_def arr_def [symmetric] n_def [symmetric])
    with False c show ?thesis
      by (simp add: arr_def [symmetric] n_def [symmetric] firstCell_def)
  qed
qed

lemma wellFormed_cells_nonempty:
  "wellFormed puz \<Longrightarrow> \<forall>e\<in>set (if dir = Across then across puz else down puz). cells e \<noteq> []"
  using wellFormed_across_first(2) wellFormed_down_first(2) by simp

text \<open>
  C10. On a puzzle the decoder returns, \<open>goToClue\<close> returns for every direction and
  every integer \<open>clueIndex\<close>, negative ones included, and never reads outside the
  entry list: when the list of that direction is empty the state is unchanged;
  otherwise the index is reduced modulo the length of the list, the entry found there
  has a first cell, the mode becomes the direction and that cell becomes the active
  cell.
\<close>

theorem goToClue_total:
  assumes "parsePuz toUpperCase bytes opts = Inr puz"
    and "arr = (if dir = Across then across puz else down puz)"
  shows "(arr = [] \<longrightarrow> goToClue puz dir clueIndex st = Inr st) \<and>
         (arr \<noteq> [] \<longrightarrow>
            nat (clueIndex mod int (length arr)) < length arr \<and>
            cells (arr ! nat (clueIndex mod int (length arr))) \<noteq> [] \<and>
            goToClue puz dir clueIndex st =
              Inr (st\<lparr>mode := dir,
                      activeIndex := Some (index (hd (cells (arr ! nat (clueIndex mod int (length arr))))))\<rparr>))"
proof -
  note wf = parsePuz_wellFormed [OF assms(1)]
  note ne = wellFormed_cells_nonempty [OF wf, of dir]
  have "nat (clueIndex mod int (length arr)) < length arr" if "arr \<noteq> []"
  proof -
    from that have "0 < int (length arr)" by simp
    then have "0 \<le> clueIndex mod int (length arr)" "clueIndex mod int (length arr) < int (length arr)"
      by simp_all
    then show ?thesis by linarith
  qed
  moreover have "cells (arr ! k) \<noteq> []" if "k < length arr" for k
    using that ne by (simp add: assms(2))
  ultimately show ?thesis
    using goToClue_eq [OF ne, of clueIndex st] by (simp add: assms(2) firstCell_def)
qed

section \<open>Tab\<close>

lemma setEntryCells_apply:
  "setEntryCells i entry m idx = (if idx \<in> set (map index (cells entry)) then Some i else m idx)"
proof -
  have "fold (\<lambda>cell m1. m1(index cell \<mapsto> i)) cs m idx =
     (if idx \<in> set (map index cs) then Some i else m idx)" for cs
    by (induction cs arbitrary: m) auto
  from this [of "cells entry"] show ?thesis unfolding setEntryCells_def .
qed

lemma cellToEntry_fold_miss:
  "idx \<notin> set (concat (map (\<lambda>e. map index (cells e)) es)) \<Longrightarrow>
   fold (\<lambda>(i, entry). setEntryCells i entry) (enumerate k es) m idx = m idx"
proof (induction es arbitrary: k m)
  case Nil
  show ?case by simp
next
  case (Cons e es)
  then have a: "idx \<notin> set (map index (cells e))"
    and b: "idx \<notin> set (concat (map (\<lambda>e. map index (cells e)) es))" by auto
  have "fold (\<lambda>(i, entry). setEntryCells i entry) (enumerate k (e # es)) m idx =
        fold (\<lambda>(i, entry). setEntryCells i entry) (enumerate (Suc k) es) (setEntryCells k e m) idx"
    by simp
  also have "\<dots> = setEntryCells k e m idx" using b by (rule Cons.IH)
  also have "\<dots> = m idx" using a by (simp only: setEntryCells_apply if_False)
  finally show ?case .
qed

lemma cellToEntry_fold_hit:
  "distinct (concat (map (\<lambda>e. map index (cells e)) es)) \<Longrightarrow> i < length es \<Longrightarrow>
   idx \<in> set (map index (cells (es ! i))) \<Longrightarrow>
   fold (\<lambda>(i, entry). setEntryCells i entry) (enumerate k es) m idx = Some (k + i)"
proof (induction es arbitrary: k m i)
  case Nil
  then show ?case by simp
next
  case (Cons e es)
  from Cons.prems(1) have d: "distinct (concat (map (\<lambda>e. map index (cells e)) es))"
    and dj: "set (map index (cells e)) \<inter> set (concat (map (\<lambda>e. map index (cells e)) es)) = {}"
    by simp_all
  have step: "fold (\<lambda>(i, entry). setEntryCells i entry) (enumerate k (e # es)) m idx =
        fold (\<lambda>(i, entry). setEntryCells i entry) (enumerate (Suc k) es) (setEntryCells k e m) idx"
    by simp
  show ?case
  proof (cases i)
    case 0
    with Cons.prems(3) have h: "idx \<in> set (map index (cells e))" by simp
    with dj have "idx \<notin> set (concat (map (\<lambda>e. map index (cells e)) es))" by blast
    then have "fold (\<lambda>(i, entry). setEntryCells i entry) (enumerate (Suc k) es) (setEntryCells k e m) idx
        = setEntryCells k e m idx" by (rule cellToEntry_fold_miss)
    also have "\<dots> = Some k" using h by (simp only: setEntryCells_apply if_True)
    finally show ?thesis unfolding step using 0 by simp
  next
    case (Suc i')
    with Cons.prems have "i' < length es" "idx \<in> set (map index (cells (es ! i')))" by simp_all
    with d have "fold (\<lambda>(i, entry). setEntryCells i entry) (enumerate (Suc k) es) (setEntryCells k e m) idx
        = Some (Suc k + i')" by (rule Cons.IH)
    then show ?thesis unfolding step using Suc by simp
  qed
qed

lemma cellToEntry_hit:
  assumes "distinct (concat (map (\<lambda>e. map index (cells e)) es))" "i < length es"
    "idx \<in> set (map index (cells (es ! i)))"
  shows "cellToEntry es idx = Some i"
  using cellToEntry_fold_hit [OF assms, of 0 Map.empty] by (simp add: cellToEntry_def)

lemma wellFormed_distinct:
  assumes "wellFormed puz"
  shows "distinct (concat (map (\<lambda>e. map index (cells e)) (across puz)))"
    and "distinct (concat (map (\<lambda>e. map index (cells e)) (down puz)))"
  unfolding wellFormed_acrossCells [OF assms] wellFormed_downCells [OF assms]
  using wellFormed_gridOK [OF assms] by (simp_all add: distinct_acrossCells distinct_downCells)

lemma wellFormed_entry_exists:
  assumes wf: "wellFormed puz" and idx: "idx < width puz * height puz" "\<not> isBlock (grid puz ! idx)"
  shows "\<exists>i<length (across puz). idx \<in> set (map index (cells (across puz ! i)))"
    and "\<exists>i<length (down puz). idx \<in> set (map index (cells (down puz ! i)))"
proof -
  have "length (filter (\<lambda>e. idx \<in> set (map index (cells e))) (across puz)) = 1"
    using across_cover_count(1) [OF wf idx(1)] idx(2) by simp
  then have "filter (\<lambda>e. idx \<in> set (map index (cells e))) (across puz) \<noteq> []" by auto
  then obtain e where "e \<in> set (across puz)" "idx \<in> set (map index (cells e))"
    by (metis (mono_tags, lifting) filter_False)
  then show "\<exists>i<length (across puz). idx \<in> set (map index (cells (across puz ! i)))"
    by (metis in_set_conv_nth)
  have "length (filter (\<lambda>e. idx \<in> set (map index (cells e))) (down puz)) = 1"
    using down_cover_count(1) [OF wf idx(1)] idx(2) by simp
  then have "filter (\<lambda>e. idx \<in> set (map index (cells e))) (down puz) \<noteq> []" by auto
  then obtain e where "e \<in> set (down puz)" "idx \<in> set (map index (cells e))"
    by (metis (mono_tags, lifting) filter_False)
  then show "\<exists>i<length (down puz). idx \<in> set (map index (cells (down puz ! i)))"
    by (metis in_set_conv_nth)
qed

lemma tab_eq:
  assumes "key e = ''Tab''" "code e \<noteq> ''Space''"
  shows "onCellKeyDown puz idx e st =
        (if mode st = Across
         then
           let iAcross = (case cellToEntry (across puz) idx of None \<Rightarrow> 0 | Some i \<Rightarrow> i);
               next = iAcross + 1
           in if next < length (across puz) then goToClue puz Across (int next) st
              else goToClue puz Down 0 st
         else
           let iDown = (case cellToEntry (down puz) idx of None \<Rightarrow> 0 | Some i \<Rightarrow> i);
               next = iDown + 1
           in if next < length (down puz) then goToClue puz Down (int next) st
              else goToClue puz Across 0 st)"
  using assms by (simp add: onCellKeyDown_def Let_def isLetterKey_def)

lemma goToClue_next:
  assumes wf: "wellFormed puz" and k: "k < length (if dir = Across then across puz else down puz)"
  shows "goToClue puz dir (int k) st =
         Inr (st\<lparr>mode := dir,
                 activeIndex := Some (firstCell ((if dir = Across then across puz else down puz) ! k))\<rparr>)"
proof -
  define arr where "arr = (if dir = Across then across puz else down puz)"
  from k have ne: "arr \<noteq> []" and "int k mod int (length arr) = int k"
    by (auto simp: arr_def)
  then have "nat (int k mod int (length arr)) = k" by simp
  with ne show ?thesis
    using goToClue_eq [OF wellFormed_cells_nonempty [OF wf, of dir], of "int k" st]
    by (simp add: arr_def)
qed

lemma tab_across:
  assumes wf: "wellFormed puz" and ev: "key e = ''Tab''" "code e \<noteq> ''Space''"
    and idx: "idx < width puz * height puz" "\<not> isBlock (grid puz ! idx)"
    and m: "mode st = Across"
    and i: "i < length (across puz)" "idx \<in> set (map index (cells (across puz ! i)))"
  shows "onCellKeyDown puz idx e st =
     (if i + 1 < length (across puz)
      then Inr (st\<lparr>activeIndex := Some (firstCell (across puz ! (i + 1)))\<rparr>)
      else Inr (st\<lparr>mode := Down, activeIndex := Some (firstCell (down puz ! 0))\<rparr>))"
proof -
  have c: "cellToEntry (across puz) idx = Some i"
    using wellFormed_distinct(1) [OF wf] i by (rule cellToEntry_hit)
  have same: "st\<lparr>mode := Across, activeIndex := x\<rparr> = st\<lparr>activeIndex := x\<rparr>" for x
    using m by simp
  show ?thesis
  proof (cases "i + 1 < length (across puz)")
    case True
    then have "goToClue puz Across (int (i + 1)) st =
        Inr (st\<lparr>mode := Across, activeIndex := Some (firstCell (across puz ! (i + 1)))\<rparr>)"
      using goToClue_next [OF wf, of "i + 1" Across st] by simp
    with True show ?thesis
      unfolding tab_eq [OF ev] using m c by (simp add: Let_def same)
  next
    case False
    from wellFormed_entry_exists(2) [OF wf idx] have "0 < length (down puz)" by auto
    then have "goToClue puz Down (int 0) st =
        Inr (st\<lparr>mode := Down, activeIndex := Some (firstCell (down puz ! 0))\<rparr>)"
      using goToClue_next [OF wf, of 0 Down st] by simp
    with False show ?thesis
      unfolding tab_eq [OF ev] using m c by (simp add: Let_def)
  qed
qed

lemma tab_down:
  assumes wf: "wellFormed puz" and ev: "key e = ''Tab''" "code e \<noteq> ''Space''"
    and idx: "idx < width puz * height puz" "\<not> isBlock (grid puz ! idx)"
    and m: "mode st = Down"
    and i: "i < length (down puz)" "idx \<in> set (map index (cells (down puz ! i)))"
  shows "onCellKeyDown puz idx e st =
     (if i + 1 < length (down puz)
      then Inr (st\<lparr>activeIndex := Some (firstCell (down puz ! (i + 1)))\<rparr>)
      else Inr (st\<lparr>mode := Across, activeIndex := Some (firstCell (across puz ! 0))\<rparr>))"
proof -
  have c: "cellToEntry (down puz) idx = Some i"
    using wellFormed_distinct(2) [OF wf] i by (rule cellToEntry_hit)
  have same: "st\<lparr>mode := Down, activeIndex := x\<rparr> = st\<lparr>activeIndex := x\<rparr>" for x
    using m by simp
  show ?thesis
  proof (cases "i + 1 < length (down puz)")
    case True
    then have "goToClue puz Down (int (i + 1)) st =
        Inr (st\<lparr>mode := Down, activeIndex := Some (firstCell (down puz ! (i + 1)))\<rparr>)"
      using goToClue_next [OF wf, of "i + 1" Down st] by simp
    with True show ?thesis
      unfolding tab_eq [OF ev] using m c by (simp add: Let_def same)
  next
    case False
    from wellFormed_entry_exists(1) [OF wf idx] have "0 < length (across puz)" by auto
    then have "goToClue puz Across (int 0) st =
        Inr (st\<lparr>mode := Across, activeIndex := Some (firstCell (across puz ! 0))\<rparr>)"
      using goToClue_next [OF wf, of 0 Across st] by simp
    with False show ?thesis
      unfolding tab_eq [OF ev] using m c by (simp add: Let_def)
  qed
qed

text \<open>
  C7. In a puzzle the decoder returns, Tab on a cell that is not a block, which lies
  in an across entry and in a down entry, does the following. In mode across, from
  the across entry \<open>i\<close> of the cell: to the first cell of across entry \<open>i + 1\<close> with
  the mode unchanged, or, when \<open>i\<close> is the last across entry, to the first cell of
  the first down entry with the mode set to down. In mode down the same with the two
  directions exchanged.
\<close>

theorem tab_next_entry:
  assumes "parsePuz toUpperCase bytes opts = Inr puz"
    and "key e = ''Tab''" and "code e \<noteq> ''Space''"
    and "idx < width puz * height puz" and "\<not> isBlock (grid puz ! idx)"
  shows "(\<exists>i<length (across puz). idx \<in> set (map index (cells (across puz ! i)))) \<and>
         (\<exists>j<length (down puz). idx \<in> set (map index (cells (down puz ! j)))) \<and>
         (\<forall>i. mode st = Across \<and> i < length (across puz) \<and>
               idx \<in> set (map index (cells (across puz ! i))) \<longrightarrow>
            onCellKeyDown puz idx e st =
              (if i + 1 < length (across puz)
               then Inr (st\<lparr>activeIndex := Some (firstCell (across puz ! (i + 1)))\<rparr>)
               else Inr (st\<lparr>mode := Down, activeIndex := Some (firstCell (down puz ! 0))\<rparr>))) \<and>
         (\<forall>j. mode st = Down \<and> j < length (down puz) \<and>
               idx \<in> set (map index (cells (down puz ! j))) \<longrightarrow>
            onCellKeyDown puz idx e st =
              (if j + 1 < length (down puz)
               then Inr (st\<lparr>activeIndex := Some (firstCell (down puz ! (j + 1)))\<rparr>)
               else Inr (st\<lparr>mode := Across, activeIndex := Some (firstCell (across puz ! 0))\<rparr>)))"
proof -
  note wf = parsePuz_wellFormed [OF assms(1)]
  show ?thesis
    using wellFormed_entry_exists [OF wf assms(4,5)]
      tab_across [OF wf assms(2-5), of st] tab_down [OF wf assms(2-5), of st]
    by blast
qed

section \<open>Navigation on the sample files\<close>

lemma parsePuz_puzBlock: "parsePuz asciiUpper puzBlock None = Inr parsedBlock"
  by code_simp

text \<open>
  C10 on the 3 by 2 grid: clue index \<open>-1\<close> among the three down entries is entry 2,
  whose first cell is cell 2; clue index 7 among the two across entries is entry 1,
  whose first cell is cell 3. On the grid without entries nothing changes.
\<close>

theorem goToClue_total_witness:
  "goToClue parsedGrid32 Down (- 1) session0 = Inr (session0\<lparr>mode := Down, activeIndex := Some 2\<rparr>) \<and>
   goToClue parsedGrid32 Across 7 session0 = Inr (session0\<lparr>mode := Across, activeIndex := Some 3\<rparr>) \<and>
   goToClue parsedBlock Across 5 session0 = Inr session0"
proof -
  have d: "down parsedGrid32 \<noteq> []"
    "index (hd (cells (down parsedGrid32 ! nat (- 1 mod int (length (down parsedGrid32)))))) = 2"
    and a: "across parsedGrid32 \<noteq> []"
    "index (hd (cells (across parsedGrid32 ! nat (7 mod int (length (across parsedGrid32)))))) = 3"
    and b: "across parsedBlock = []"
    by code_simp+
  have 1: "goToClue parsedGrid32 Down (- 1) session0 = Inr (session0\<lparr>mode := Down, activeIndex := Some 2\<rparr>)"
    using goToClue_total [OF parsePuz_puzGrid32, of "down parsedGrid32" Down "- 1" session0] d by simp
  have 2: "goToClue parsedGrid32 Across 7 session0 = Inr (session0\<lparr>mode := Across, activeIndex := Some 3\<rparr>)"
    using goToClue_total [OF parsePuz_puzGrid32, of "across parsedGrid32" Across 7 session0] a by simp
  have 3: "goToClue parsedBlock Across 5 session0 = Inr session0"
    using goToClue_total [OF parsePuz_puzBlock, of "across parsedBlock" Across 5 session0] b by simp
  from 1 2 3 show ?thesis by simp
qed

text \<open>
  C7 on the 3 by 2 grid, which has two across and three down entries: Tab in mode
  across on cell 4, in the last across entry, leads to cell 0 in mode down; Tab in
  mode down on cell 5, in the last down entry, leads to cell 0 in mode across; Tab in
  mode across on cell 1, in the first across entry, leads to cell 3, the first cell
  of the second across entry, and the mode stays.
\<close>

theorem tab_next_entry_witness:
  "onCellKeyDown parsedGrid32 4 keyTab session0 =
     Inr (session0\<lparr>mode := Down, activeIndex := Some 0\<rparr>) \<and>
   onCellKeyDown parsedGrid32 5 keyTab (session0\<lparr>mode := Down\<rparr>) =
     Inr (session0\<lparr>mode := Down\<rparr>\<lparr>mode := Across, activeIndex := Some 0\<rparr>) \<and>
   onCellKeyDown parsedGrid32 1 keyTab session0 = Inr (session0\<lparr>activeIndex := Some 3\<rparr>)"
proof -
  have k: "key keyTab = ''Tab''" "code keyTab \<noteq> ''Space''" by code_simp+
  have c4: "4 < width parsedGrid32 * height parsedGrid32" "\<not> isBlock (grid parsedGrid32 ! 4)"
    and c5: "5 < width parsedGrid32 * height parsedGrid32" "\<not> isBlock (grid parsedGrid32 ! 5)"
    and c1: "1 < width parsedGrid32 * height parsedGrid32" "\<not> isBlock (grid parsedGrid32 ! 1)"
    by code_simp+
  have m: "mode session0 = Across" "mode (session0\<lparr>mode := Down\<rparr>) = Down" by code_simp+
  have e4: "1 < length (across parsedGrid32)" "4 \<in> set (map index (cells (across parsedGrid32 ! 1)))"
    "\<not> 1 + 1 < length (across parsedGrid32)" "firstCell (down parsedGrid32 ! 0) = 0"
    by code_simp+
  have e5: "2 < length (down parsedGrid32)" "5 \<in> set (map index (cells (down parsedGrid32 ! 2)))"
    "\<not> 2 + 1 < length (down parsedGrid32)" "firstCell (across parsedGrid32 ! 0) = 0"
    by code_simp+
  have e1: "0 < length (across parsedGrid32)" "1 \<in> set (map index (cells (across parsedGrid32 ! 0)))"
    "0 + 1 < length (across parsedGrid32)" "firstCell (across parsedGrid32 ! (0 + 1)) = 3"
    by code_simp+
  have 1: "onCellKeyDown parsedGrid32 4 keyTab session0 =
     Inr (session0\<lparr>mode := Down, activeIndex := Some 0\<rparr>)"
    using tab_next_entry [OF parsePuz_puzGrid32 k c4, of session0] m e4 by auto
  have 2: "onCellKeyDown parsedGrid32 5 keyTab (session0\<lparr>mode := Down\<rparr>) =
     Inr (session0\<lparr>mode := Down\<rparr>\<lparr>mode := Across, activeIndex := Some 0\<rparr>)"
    using tab_next_entry [OF parsePuz_puzGrid32 k c5, of "session0\<lparr>mode := Down\<rparr>"] m e5 by auto
  have 3: "onCellKeyDown parsedGrid32 1 keyTab session0 = Inr (session0\<lparr>activeIndex := Some 3\<rparr>)"
    using tab_next_entry [OF parsePuz_puzGrid32 k c1, of session0] m e1 by auto
  from 1 2 3 show ?thesis by simp
qed

section \<open>Assigning clues\<close>

lemma withClues_0: "withClues f 0 es = es"
  by (simp add: withClues_def map_nth)

lemma length_withClues: "length (withClues f n es) = length es"
  by (simp add: withClues_def)

lemma withClues_nth:
  "i < length es \<Longrightarrow> withClues f n es ! i = (if i < n then (es ! i)\<lparr>clue := f i\<rparr> else es ! i)"
  by (simp add: withClues_def)

lemma withClues_step:
  assumes "n < length es"
  shows "(withClues f n es)[n := (withClues f n es ! n)\<lparr>clue := f n\<rparr>] = withClues f (Suc n) es"
proof (rule nth_equalityI)
  show "length ((withClues f n es)[n := (withClues f n es ! n)\<lparr>clue := f n\<rparr>]) =
        length (withClues f (Suc n) es)" by (simp add: length_withClues)
next
  fix i assume "i < length ((withClues f n es)[n := (withClues f n es ! n)\<lparr>clue := f n\<rparr>])"
  then have i: "i < length es" by (simp add: length_withClues)
  show "(withClues f n es)[n := (withClues f n es ! n)\<lparr>clue := f n\<rparr>] ! i = withClues f (Suc n) es ! i"
  proof (cases "i = n")
    case True
    with assms show ?thesis by (simp add: length_withClues withClues_nth)
  next
    case False
    with i show ?thesis by (auto simp: withClues_nth)
  qed
qed

lemma takeClue_min:
  "takeClue raw (min c (length raw)) = (arrGet [] raw c, min (Suc c) (length raw))"
  by (auto simp: takeClue_def arrGet_def min_def)

lemma assignAcross_step:
  assumes "n < length acr" "f n = arrGet [] raw c"
  shows "assignAcross raw n (min c (length raw), withClues f n acr, dwn) =
         (min (Suc c) (length raw), withClues f (Suc n) acr, dwn)"
  using withClues_step [OF assms(1), of f] assms(2)
  by (simp add: assignAcross_def takeClue_min)

lemma assignDown_step:
  assumes "n < length dwn" "f n = arrGet [] raw c"
  shows "assignDown raw n (min c (length raw), acr, withClues f n dwn) =
         (min (Suc c) (length raw), acr, withClues f (Suc n) dwn)"
  using withClues_step [OF assms(1), of f] assms(2)
  by (simp add: assignDown_def takeClue_min)

lemma fold_assignAcross:
  "n \<le> length acr \<Longrightarrow>
   fold (assignAcross raw) [0..<n] (min c (length raw), acr, dwn) =
     (min (c + n) (length raw), withClues (\<lambda>i. arrGet [] raw (c + i)) n acr, dwn)"
proof (induction n)
  case 0
  show ?case by (simp add: withClues_0)
next
  case (Suc n)
  then have "n < length acr" by simp
  from assignAcross_step [OF this, of "\<lambda>i. arrGet [] raw (c + i)" raw "c + n" dwn] Suc
  show ?case by simp
qed

lemma fold_assignDown:
  "n \<le> length dwn \<Longrightarrow>
   fold (assignDown raw) [0..<n] (min c (length raw), acr, dwn) =
     (min (c + n) (length raw), acr, withClues (\<lambda>i. arrGet [] raw (c + i)) n dwn)"
proof (induction n)
  case 0
  show ?case by (simp add: withClues_0)
next
  case (Suc n)
  then have "n < length dwn" by simp
  from assignDown_step [OF this, of "\<lambda>i. arrGet [] raw (c + i)" raw "c + n" acr] Suc
  show ?case by simp
qed

lemma assignClues_AcrossDown:
  "assignClues AcrossDown raw starts acr dwn =
     (min (length acr + length dwn) (length raw),
      withClues (\<lambda>i. arrGet [] raw i) (length acr) acr,
      withClues (\<lambda>j. arrGet [] raw (length acr + j)) (length dwn) dwn)"
proof -
  have "fold (assignAcross raw) [0..<length acr] (0, acr, dwn) =
      (min (length acr) (length raw), withClues (\<lambda>i. arrGet [] raw i) (length acr) acr, dwn)"
    using fold_assignAcross [of "length acr" acr raw 0 dwn] by simp
  then show ?thesis
    using fold_assignDown [of "length dwn" dwn raw "length acr"
        "withClues (\<lambda>i. arrGet [] raw i) (length acr) acr"]
    by (simp add: assignClues_def)
qed

lemma assignClues_DownAcross:
  "assignClues DownAcross raw starts acr dwn =
     (min (length dwn + length acr) (length raw),
      withClues (\<lambda>i. arrGet [] raw (length dwn + i)) (length acr) acr,
      withClues (\<lambda>j. arrGet [] raw j) (length dwn) dwn)"
proof -
  have "fold (assignDown raw) [0..<length dwn] (0, acr, dwn) =
      (min (length dwn) (length raw), acr, withClues (\<lambda>j. arrGet [] raw j) (length dwn) dwn)"
    using fold_assignDown [of "length dwn" dwn raw 0 acr] by simp
  then show ?thesis
    using fold_assignAcross [of "length acr" acr raw "length dwn"
        "withClues (\<lambda>j. arrGet [] raw j) (length dwn) dwn"]
    by (simp add: assignClues_def)
qed

lemma filter_upt_nth_rank:
  assumes "P n" "n < N"
  shows "filter P [0..<N] ! length (filter P [0..<n]) = n"
    and "length (filter P [0..<n]) < length (filter P [0..<N])"
proof -
  have "[0..<N] = [0..<n] @ n # [Suc n..<N]"
    using assms(2) by (metis le0 less_imp_le_nat upt_add_eq_append le_add_diff_inverse upt_conv_Cons)
  then have e: "filter P [0..<N] = filter P [0..<n] @ n # filter P [Suc n..<N]"
    using assms(1) by simp
  show "filter P [0..<N] ! length (filter P [0..<n]) = n"
    unfolding e by (rule nth_append_length)
  show "length (filter P [0..<n]) < length (filter P [0..<N])"
    unfolding e by simp
qed

lemma acrossCount_Suc:
  "acrossCount w h g (Suc n) = acrossCount w h g n + (if startsAcrossAt w h g n then 1 else 0)"
  by (simp add: acrossCount_def)

lemma downCount_Suc:
  "downCount w h g (Suc n) = downCount w h g n + (if startsDownAt w h g n then 1 else 0)"
  by (simp add: downCount_def)

lemma startAt_fields:
  assumes "isStartAt w h g n"
  shows "startsAcross (startAt w h g n) = startsAcrossAt w h g n"
    and "startsDown (startAt w h g n) = startsDownAt w h g n"
    and "acrossIndex (startAt w h g n) =
           (if startsAcrossAt w h g n then Some (acrossCount w h g n) else None)"
    and "downIndex (startAt w h g n) =
           (if startsDownAt w h g n then Some (downCount w h g n) else None)"
proof -
  from assms have "\<not> isBlock (g ! n)" by (auto simp: isStartAt_def startsAcrossAt_def startsDownAt_def)
  then show "startsAcross (startAt w h g n) = startsAcrossAt w h g n"
    and "startsDown (startAt w h g n) = startsDownAt w h g n"
    by (simp_all add: startAt_def startsAcrossAt_def startsDownAt_def)
  show "acrossIndex (startAt w h g n) =
           (if startsAcrossAt w h g n then Some (acrossCount w h g n) else None)"
    and "downIndex (startAt w h g n) =
           (if startsDownAt w h g n then Some (downCount w h g n) else None)"
    by (simp_all add: startAt_def acrossCount_def downCount_def)
qed

lemma assignStartAD_eq:
  assumes "isStartAt w h g n"
  shows "assignStartAD raw (startAt w h g n) st =
     (let st1 = (if startsAcrossAt w h g n then assignAcross raw (acrossCount w h g n) st else st)
      in if startsDownAt w h g n then assignDown raw (downCount w h g n) st1 else st1)"
  by (simp add: assignStartAD_def startAt_fields [OF assms])

lemma assignStartDA_eq:
  assumes "isStartAt w h g n"
  shows "assignStartDA raw (startAt w h g n) st =
     (let st1 = (if startsDownAt w h g n then assignDown raw (downCount w h g n) st else st)
      in if startsAcrossAt w h g n then assignAcross raw (acrossCount w h g n) st1 else st1)"
  by (simp add: assignStartDA_def startAt_fields [OF assms])

lemma slot_at_start:
  assumes "n < w * h"
  shows "startsAcrossAt w h g n \<Longrightarrow>
           acrossSlotAD w h g (acrossCount w h g n) = acrossCount w h g n + downCount w h g n"
    and "startsDownAt w h g n \<Longrightarrow>
           downSlotAD w h g (downCount w h g n) = acrossCount w h g (Suc n) + downCount w h g n"
    and "startsAcrossAt w h g n \<Longrightarrow>
           acrossSlotDA w h g (acrossCount w h g n) = acrossCount w h g n + downCount w h g (Suc n)"
    and "startsDownAt w h g n \<Longrightarrow>
           downSlotDA w h g (downCount w h g n) = acrossCount w h g n + downCount w h g n"
  using assms
  by (simp_all add: acrossSlotAD_def downSlotAD_def acrossSlotDA_def downSlotDA_def
      acrossCount_def downCount_def filter_upt_nth_rank(1))

lemma count_less:
  assumes "n < w * h"
  shows "startsAcrossAt w h g n \<Longrightarrow> acrossCount w h g n < acrossCount w h g (w * h)"
    and "startsDownAt w h g n \<Longrightarrow> downCount w h g n < downCount w h g (w * h)"
  using assms by (simp_all add: acrossCount_def downCount_def filter_upt_nth_rank(2))

lemma assignStartAD_step:
  assumes n: "n < w * h" and st: "isStartAt w h g n"
    and la: "length acr = acrossCount w h g (w * h)" and ld: "length dwn = downCount w h g (w * h)"
  shows "assignStartAD raw (startAt w h g n)
      (min (acrossCount w h g n + downCount w h g n) (length raw),
       withClues (\<lambda>i. arrGet [] raw (acrossSlotAD w h g i)) (acrossCount w h g n) acr,
       withClues (\<lambda>j. arrGet [] raw (downSlotAD w h g j)) (downCount w h g n) dwn) =
      (min (acrossCount w h g (Suc n) + downCount w h g (Suc n)) (length raw),
       withClues (\<lambda>i. arrGet [] raw (acrossSlotAD w h g i)) (acrossCount w h g (Suc n)) acr,
       withClues (\<lambda>j. arrGet [] raw (downSlotAD w h g j)) (downCount w h g (Suc n)) dwn)"
proof -
  define fa where "fa = (\<lambda>i. arrGet [] raw (acrossSlotAD w h g i))"
  define fd where "fd = (\<lambda>j. arrGet [] raw (downSlotAD w h g j))"
  define a where "a = acrossCount w h g n"
  define d where "d = downCount w h g n"
  have A: "assignAcross raw a (min (a + d) (length raw), withClues fa a acr, X) =
           (min (Suc (a + d)) (length raw), withClues fa (Suc a) acr, X)"
    if "startsAcrossAt w h g n" for X
    using that count_less(1) [OF n] slot_at_start(1) [OF n]
    by (intro assignAcross_step) (simp_all add: la a_def d_def fa_def)
  have D: "assignDown raw d (min (acrossCount w h g (Suc n) + d) (length raw), X, withClues fd d dwn) =
           (min (Suc (acrossCount w h g (Suc n) + d)) (length raw), X, withClues fd (Suc d) dwn)"
    if "startsDownAt w h g n" for X
    using that count_less(2) [OF n] slot_at_start(2) [OF n]
    by (intro assignDown_step) (simp_all add: ld d_def fd_def)
  show ?thesis
  proof (cases "startsAcrossAt w h g n")
    case sa: True
    then have s: "acrossCount w h g (Suc n) = Suc a" by (simp add: acrossCount_Suc a_def)
    show ?thesis
    proof (cases "startsDownAt w h g n")
      case True
      then show ?thesis
        unfolding assignStartAD_eq [OF st] fa_def [symmetric] fd_def [symmetric]
          a_def [symmetric] d_def [symmetric]
        using sa A [OF sa] D [OF True] s by (simp add: Let_def downCount_Suc d_def [symmetric])
    next
      case False
      then show ?thesis
        unfolding assignStartAD_eq [OF st] fa_def [symmetric] fd_def [symmetric]
          a_def [symmetric] d_def [symmetric]
        using sa A [OF sa] s by (simp add: Let_def downCount_Suc d_def [symmetric])
    qed
  next
    case na: False
    then have s: "acrossCount w h g (Suc n) = a" by (simp add: acrossCount_Suc a_def)
    from na st have sd: "startsDownAt w h g n" by (simp add: isStartAt_def)
    show ?thesis
      unfolding assignStartAD_eq [OF st] fa_def [symmetric] fd_def [symmetric]
        a_def [symmetric] d_def [symmetric]
      using na sd D [OF sd] s by (simp add: Let_def downCount_Suc d_def [symmetric])
  qed
qed

lemma assignStartDA_step:
  assumes n: "n < w * h" and st: "isStartAt w h g n"
    and la: "length acr = acrossCount w h g (w * h)" and ld: "length dwn = downCount w h g (w * h)"
  shows "assignStartDA raw (startAt w h g n)
      (min (acrossCount w h g n + downCount w h g n) (length raw),
       withClues (\<lambda>i. arrGet [] raw (acrossSlotDA w h g i)) (acrossCount w h g n) acr,
       withClues (\<lambda>j. arrGet [] raw (downSlotDA w h g j)) (downCount w h g n) dwn) =
      (min (acrossCount w h g (Suc n) + downCount w h g (Suc n)) (length raw),
       withClues (\<lambda>i. arrGet [] raw (acrossSlotDA w h g i)) (acrossCount w h g (Suc n)) acr,
       withClues (\<lambda>j. arrGet [] raw (downSlotDA w h g j)) (downCount w h g (Suc n)) dwn)"
proof -
  define fa where "fa = (\<lambda>i. arrGet [] raw (acrossSlotDA w h g i))"
  define fd where "fd = (\<lambda>j. arrGet [] raw (downSlotDA w h g j))"
  define a where "a = acrossCount w h g n"
  define d where "d = downCount w h g n"
  have D: "assignDown raw d (min (a + d) (length raw), X, withClues fd d dwn) =
           (min (Suc (a + d)) (length raw), X, withClues fd (Suc d) dwn)"
    if "startsDownAt w h g n" for X
    using that count_less(2) [OF n] slot_at_start(4) [OF n]
    by (intro assignDown_step) (simp_all add: ld a_def d_def fd_def)
  have A: "assignAcross raw a (min (a + downCount w h g (Suc n)) (length raw), withClues fa a acr, X) =
           (min (Suc (a + downCount w h g (Suc n))) (length raw), withClues fa (Suc a) acr, X)"
    if "startsAcrossAt w h g n" for X
    using that count_less(1) [OF n] slot_at_start(3) [OF n]
    by (intro assignAcross_step) (simp_all add: la a_def fa_def)
  show ?thesis
  proof (cases "startsDownAt w h g n")
    case sd: True
    then have s: "downCount w h g (Suc n) = Suc d" by (simp add: downCount_Suc d_def)
    show ?thesis
    proof (cases "startsAcrossAt w h g n")
      case True
      then show ?thesis
        unfolding assignStartDA_eq [OF st] fa_def [symmetric] fd_def [symmetric]
          a_def [symmetric] d_def [symmetric]
        using sd D [OF sd] A [OF True] s by (simp add: Let_def acrossCount_Suc a_def [symmetric])
    next
      case False
      then show ?thesis
        unfolding assignStartDA_eq [OF st] fa_def [symmetric] fd_def [symmetric]
          a_def [symmetric] d_def [symmetric]
        using sd D [OF sd] s by (simp add: Let_def acrossCount_Suc a_def [symmetric])
    qed
  next
    case nd: False
    then have s: "downCount w h g (Suc n) = d" by (simp add: downCount_Suc d_def)
    from nd st have sa: "startsAcrossAt w h g n" by (simp add: isStartAt_def)
    show ?thesis
      unfolding assignStartDA_eq [OF st] fa_def [symmetric] fd_def [symmetric]
        a_def [symmetric] d_def [symmetric]
      using nd sa A [OF sa] s by (simp add: Let_def acrossCount_Suc a_def [symmetric])
  qed
qed

lemma fold_assignStartAD:
  assumes la: "length acr = acrossCount w h g (w * h)" and ld: "length dwn = downCount w h g (w * h)"
  shows "n \<le> w * h \<Longrightarrow>
    fold (assignStartAD raw) (map (startAt w h g) (filter (isStartAt w h g) [0..<n])) (0, acr, dwn) =
      (min (acrossCount w h g n + downCount w h g n) (length raw),
       withClues (\<lambda>i. arrGet [] raw (acrossSlotAD w h g i)) (acrossCount w h g n) acr,
       withClues (\<lambda>j. arrGet [] raw (downSlotAD w h g j)) (downCount w h g n) dwn)"
proof (induction n)
  case 0
  show ?case by (simp add: acrossCount_def downCount_def withClues_0)
next
  case (Suc n)
  then have n: "n < w * h" and IH: "fold (assignStartAD raw)
      (map (startAt w h g) (filter (isStartAt w h g) [0..<n])) (0, acr, dwn) =
      (min (acrossCount w h g n + downCount w h g n) (length raw),
       withClues (\<lambda>i. arrGet [] raw (acrossSlotAD w h g i)) (acrossCount w h g n) acr,
       withClues (\<lambda>j. arrGet [] raw (downSlotAD w h g j)) (downCount w h g n) dwn)"
    by simp_all
  show ?case
  proof (cases "isStartAt w h g n")
    case True
    then have "fold (assignStartAD raw)
        (map (startAt w h g) (filter (isStartAt w h g) [0..<Suc n])) (0, acr, dwn) =
      assignStartAD raw (startAt w h g n) (fold (assignStartAD raw)
        (map (startAt w h g) (filter (isStartAt w h g) [0..<n])) (0, acr, dwn))"
      by simp
    then show ?thesis unfolding IH assignStartAD_step [OF n True la ld] .
  next
    case False
    then have "\<not> startsAcrossAt w h g n" "\<not> startsDownAt w h g n" by (simp_all add: isStartAt_def)
    with False IH show ?thesis by (simp add: acrossCount_Suc downCount_Suc)
  qed
qed

lemma fold_assignStartDA:
  assumes la: "length acr = acrossCount w h g (w * h)" and ld: "length dwn = downCount w h g (w * h)"
  shows "n \<le> w * h \<Longrightarrow>
    fold (assignStartDA raw) (map (startAt w h g) (filter (isStartAt w h g) [0..<n])) (0, acr, dwn) =
      (min (acrossCount w h g n + downCount w h g n) (length raw),
       withClues (\<lambda>i. arrGet [] raw (acrossSlotDA w h g i)) (acrossCount w h g n) acr,
       withClues (\<lambda>j. arrGet [] raw (downSlotDA w h g j)) (downCount w h g n) dwn)"
proof (induction n)
  case 0
  show ?case by (simp add: acrossCount_def downCount_def withClues_0)
next
  case (Suc n)
  then have n: "n < w * h" and IH: "fold (assignStartDA raw)
      (map (startAt w h g) (filter (isStartAt w h g) [0..<n])) (0, acr, dwn) =
      (min (acrossCount w h g n + downCount w h g n) (length raw),
       withClues (\<lambda>i. arrGet [] raw (acrossSlotDA w h g i)) (acrossCount w h g n) acr,
       withClues (\<lambda>j. arrGet [] raw (downSlotDA w h g j)) (downCount w h g n) dwn)"
    by simp_all
  show ?case
  proof (cases "isStartAt w h g n")
    case True
    then have "fold (assignStartDA raw)
        (map (startAt w h g) (filter (isStartAt w h g) [0..<Suc n])) (0, acr, dwn) =
      assignStartDA raw (startAt w h g n) (fold (assignStartDA raw)
        (map (startAt w h g) (filter (isStartAt w h g) [0..<n])) (0, acr, dwn))"
      by simp
    then show ?thesis unfolding IH assignStartDA_step [OF n True la ld] .
  next
    case False
    then have "\<not> startsAcrossAt w h g n" "\<not> startsDownAt w h g n" by (simp_all add: isStartAt_def)
    with False IH show ?thesis by (simp add: acrossCount_Suc downCount_Suc)
  qed
qed

lemma assignClues_scan:
  assumes la: "length acr = acrossCount w h g (w * h)" and ld: "length dwn = downCount w h g (w * h)"
  shows "\<exists>k. assignClues order raw (map (startAt w h g) (filter (isStartAt w h g) [0..<w * h])) acr dwn =
     (k, withClues (\<lambda>i. arrGet [] raw (acrossSlot order w h g (length acr) (length dwn) i)) (length acr) acr,
         withClues (\<lambda>j. arrGet [] raw (downSlot order w h g (length acr) (length dwn) j)) (length dwn) dwn)"
proof (cases order)
  case AcrossDown
  then show ?thesis by (simp add: assignClues_AcrossDown acrossSlot_def downSlot_def)
next
  case DownAcross
  then show ?thesis by (simp add: assignClues_DownAcross acrossSlot_def downSlot_def)
next
  case InterleavedAD
  then show ?thesis
    using fold_assignStartAD [OF la ld, of "w * h" raw]
    by (simp add: assignClues_def acrossSlot_def downSlot_def la ld)
next
  case InterleavedDA
  then show ?thesis
    using fold_assignStartDA [OF la ld, of "w * h" raw]
    by (simp add: assignClues_def acrossSlot_def downSlot_def la ld)
qed

lemma buildPuz_clues:
  assumes g_def: "g = buildGrid toUpperCase w sol (w * h)"
    and puz_def: "puz = buildPuz toUpperCase w h sol ttl auth copyr raw opts"
  shows "\<forall>i<length (across puz). clue (across puz ! i) =
           arrGet [] raw (acrossSlot (clueOrder puz) w h g (length (across puz)) (length (down puz)) i)"
    and "\<forall>j<length (down puz). clue (down puz ! j) =
           arrGet [] raw (downSlot (clueOrder puz) w h g (length (across puz)) (length (down puz)) j)"
proof -
  define order where "order = (case opts of None \<Rightarrow> InterleavedAD | Some ord \<Rightarrow> ord)"
  define acr where "acr = map (acrossEntryAt w h g) (filter (startsAcrossAt w h g) [0..<w * h])"
  define dwn where "dwn = map (downEntryAt w h g) (filter (startsDownAt w h g) [0..<w * h])"
  have la: "length acr = acrossCount w h g (w * h)" and ld: "length dwn = downCount w h g (w * h)"
    by (simp_all add: acr_def dwn_def acrossCount_def downCount_def)
  from assignClues_scan [OF la ld, of order raw] obtain k where
    asg: "assignClues order raw (map (startAt w h g) (filter (isStartAt w h g) [0..<w * h])) acr dwn =
     (k, withClues (\<lambda>i. arrGet [] raw (acrossSlot order w h g (length acr) (length dwn) i)) (length acr) acr,
         withClues (\<lambda>j. arrGet [] raw (downSlot order w h g (length acr) (length dwn) j)) (length dwn) dwn)"
    by blast
  have a: "across puz = withClues (\<lambda>i. arrGet [] raw (acrossSlot order w h g (length acr) (length dwn) i)) (length acr) acr"
    and d: "down puz = withClues (\<lambda>j. arrGet [] raw (downSlot order w h g (length acr) (length dwn) j)) (length dwn) dwn"
    and o: "clueOrder puz = order"
    using asg
    by (simp_all add: puz_def buildPuz_def Let_def scanGrid_eq scanUpTo_def g_def [symmetric]
        mult.commute [of h w] order_def [symmetric] acr_def [symmetric] dwn_def [symmetric])
  have len: "length (across puz) = length acr" "length (down puz) = length dwn"
    by (simp_all add: a d length_withClues)
  show "\<forall>i<length (across puz). clue (across puz ! i) =
           arrGet [] raw (acrossSlot (clueOrder puz) w h g (length (across puz)) (length (down puz)) i)"
    unfolding len o by (simp add: a length_withClues withClues_nth)
  show "\<forall>j<length (down puz). clue (down puz ! j) =
           arrGet [] raw (downSlot (clueOrder puz) w h g (length (across puz)) (length (down puz)) j)"
    unfolding len o by (simp add: d length_withClues withClues_nth)
qed

lemma filter_less_upt:
  assumes "s \<le> N"
  shows "filter (\<lambda>x. x < s) (filter P [0..<N]) = filter P [0..<s]"
proof -
  have "[0..<N] = [0..<s] @ [s..<N]"
    using assms by (metis le0 upt_add_eq_append le_add_diff_inverse)
  then have "filter (\<lambda>x. x < s) [0..<N] = [0..<s]" by simp
  moreover have "filter (\<lambda>x. x < s) (filter P [0..<N]) = filter P (filter (\<lambda>x. x < s) [0..<N])"
    by (simp add: conj_commute)
  ultimately show ?thesis by simp
qed

lemma count_first_less:
  assumes "map firstCell es = filter P [0..<N]" "s \<le> N"
  shows "length (filter (\<lambda>e. firstCell e < s) es) = length (filter P [0..<s])"
proof -
  have "length (filter (\<lambda>e. firstCell e < s) es) = length (filter (\<lambda>x. x < s) (map firstCell es))"
    by (simp add: filter_map comp_def)
  also have "\<dots> = length (filter (\<lambda>x. x < s) (filter P [0..<N]))"
    unfolding assms(1) ..
  also have "\<dots> = length (filter P [0..<s])"
    unfolding filter_less_upt [OF assms(2)] ..
  finally show ?thesis .
qed

lemma count_first_le:
  assumes "map firstCell es = filter P [0..<N]" "s < N"
  shows "length (filter (\<lambda>e. firstCell e \<le> s) es) = length (filter P [0..<Suc s])"
proof -
  have "(\<lambda>e. firstCell e \<le> s) = (\<lambda>e. firstCell e < Suc s)" by auto
  then show ?thesis using count_first_less [OF assms(1), of "Suc s"] assms(2) by simp
qed

lemma wellFormed_slots:
  assumes wf: "wellFormed puz"
  defines "w \<equiv> width puz" and "h \<equiv> height puz" and "g \<equiv> grid puz"
  shows "i < length (across puz) \<Longrightarrow>
           acrossSlotAD w h g i = i + length (filter (\<lambda>d. firstCell d < firstCell (across puz ! i)) (down puz))"
    and "i < length (across puz) \<Longrightarrow>
           acrossSlotDA w h g i = i + length (filter (\<lambda>d. firstCell d \<le> firstCell (across puz ! i)) (down puz))"
    and "j < length (down puz) \<Longrightarrow>
           downSlotAD w h g j = j + length (filter (\<lambda>a. firstCell a \<le> firstCell (down puz ! j)) (across puz))"
    and "j < length (down puz) \<Longrightarrow>
           downSlotDA w h g j = j + length (filter (\<lambda>a. firstCell a < firstCell (down puz ! j)) (across puz))"
proof -
  note fa = wellFormed_across_first(1) [OF wf, folded w_def h_def g_def]
  note fd = wellFormed_down_first(1) [OF wf, folded w_def h_def g_def]
  have sa: "filter (startsAcrossAt w h g) [0..<w * h] ! i = firstCell (across puz ! i)"
    and ba: "firstCell (across puz ! i) < w * h" if "i < length (across puz)" for i
  proof -
    from that have "map firstCell (across puz) ! i = firstCell (across puz ! i)" by simp
    then show e: "filter (startsAcrossAt w h g) [0..<w * h] ! i = firstCell (across puz ! i)"
      by (simp add: fa)
    have "i < length (filter (startsAcrossAt w h g) [0..<w * h])"
      using that by (simp flip: fa)
    then have "filter (startsAcrossAt w h g) [0..<w * h] ! i \<in> set (filter (startsAcrossAt w h g) [0..<w * h])"
      by (rule nth_mem)
    then show "firstCell (across puz ! i) < w * h" unfolding e by simp
  qed
  have sd: "filter (startsDownAt w h g) [0..<w * h] ! j = firstCell (down puz ! j)"
    and bd: "firstCell (down puz ! j) < w * h" if "j < length (down puz)" for j
  proof -
    from that have "map firstCell (down puz) ! j = firstCell (down puz ! j)" by simp
    then show e: "filter (startsDownAt w h g) [0..<w * h] ! j = firstCell (down puz ! j)"
      by (simp add: fd)
    have "j < length (filter (startsDownAt w h g) [0..<w * h])"
      using that by (simp flip: fd)
    then have "filter (startsDownAt w h g) [0..<w * h] ! j \<in> set (filter (startsDownAt w h g) [0..<w * h])"
      by (rule nth_mem)
    then show "firstCell (down puz ! j) < w * h" unfolding e by simp
  qed
  show "acrossSlotAD w h g i = i + length (filter (\<lambda>d. firstCell d < firstCell (across puz ! i)) (down puz))"
    if "i < length (across puz)"
    using count_first_less [OF fd, of "firstCell (across puz ! i)"] ba [OF that] sa [OF that]
    by (simp add: acrossSlotAD_def downCount_def)
  show "acrossSlotDA w h g i = i + length (filter (\<lambda>d. firstCell d \<le> firstCell (across puz ! i)) (down puz))"
    if "i < length (across puz)"
    using count_first_le [OF fd, of "firstCell (across puz ! i)"] ba [OF that] sa [OF that]
    by (simp add: acrossSlotDA_def downCount_def)
  show "downSlotAD w h g j = j + length (filter (\<lambda>a. firstCell a \<le> firstCell (down puz ! j)) (across puz))"
    if "j < length (down puz)"
    using count_first_le [OF fa, of "firstCell (down puz ! j)"] bd [OF that] sd [OF that]
    by (simp add: downSlotAD_def acrossCount_def)
  show "downSlotDA w h g j = j + length (filter (\<lambda>a. firstCell a < firstCell (down puz ! j)) (across puz))"
    if "j < length (down puz)"
    using count_first_less [OF fa, of "firstCell (down puz ! j)"] bd [OF that] sd [OF that]
    by (simp add: downSlotDA_def acrossCount_def)
qed

lemma parsePuz_clues:
  assumes p: "parsePuz toUpperCase bytes opts = Inr puz"
  shows "clueOrder puz = (case opts of None \<Rightarrow> InterleavedAD | Some ord \<Rightarrow> ord)"
    and "length (cluesRaw puz) = headerNumClues bytes"
    and "\<forall>i<length (across puz). clue (across puz ! i) =
           arrGet [] (cluesRaw puz)
             (acrossSlot (clueOrder puz) (width puz) (height puz) (grid puz)
                (length (across puz)) (length (down puz)) i)"
    and "\<forall>j<length (down puz). clue (down puz ! j) =
           arrGet [] (cluesRaw puz)
             (downSlot (clueOrder puz) (width puz) (height puz) (grid puz)
                (length (across puz)) (length (down puz)) j)"
proof -
  from p obtain ttl auth copyr raw where
    rs: "readStrings bytes (0x34 + 2 * headerWidth bytes * headerHeight bytes) (headerNumClues bytes) =
           Inr (ttl, auth, copyr, raw)"
    and pz: "puz = buildPuz toUpperCase (headerWidth bytes) (headerHeight bytes)
                (jsSlice bytes 0x34 (0x34 + headerWidth bytes * headerHeight bytes)) ttl auth copyr raw opts"
    unfolding parsePuz_eq by (auto split: if_splits sum.splits)
  show "clueOrder puz = (case opts of None \<Rightarrow> InterleavedAD | Some ord \<Rightarrow> ord)"
    by (simp add: pz buildPuz_fields)
  show "length (cluesRaw puz) = headerNumClues bytes"
    using readStrings_length [OF rs] by (simp add: pz buildPuz_fields)
  have f: "width puz = headerWidth bytes" "height puz = headerHeight bytes"
    "grid puz = buildGrid toUpperCase (headerWidth bytes)
        (jsSlice bytes 0x34 (0x34 + headerWidth bytes * headerHeight bytes))
        (headerWidth bytes * headerHeight bytes)"
    "cluesRaw puz = raw"
    by (simp_all add: pz buildPuz_fields)
  show "\<forall>i<length (across puz). clue (across puz ! i) =
           arrGet [] (cluesRaw puz)
             (acrossSlot (clueOrder puz) (width puz) (height puz) (grid puz)
                (length (across puz)) (length (down puz)) i)"
    unfolding f using buildPuz_clues(1) [OF refl pz] .
  show "\<forall>j<length (down puz). clue (down puz ! j) =
           arrGet [] (cluesRaw puz)
             (downSlot (clueOrder puz) (width puz) (height puz) (grid puz)
                (length (across puz)) (length (down puz)) j)"
    unfolding f using buildPuz_clues(2) [OF refl pz] .
qed

text \<open>
  C3. \<open>parsePuz\<close> returns a puzzle exactly when the buffer holds the header, a
  nonzero width and height, both grids and the \<open>3 + numClues\<close> terminated strings;
  the number of entries of the grid plays no part in it. In the puzzle it returns,
  under each of the four orders, every entry has the clue at one position of
  \<open>cluesRaw\<close>, read as the empty string when the position is past the end of
  \<open>cluesRaw\<close>. The position of across entry \<open>i\<close> is \<open>i\<close> under across-down, the number of
  down entries plus \<open>i\<close> under down-across, and under the interleaved orders \<open>i\<close> plus
  the number of down entries that start before its first cell (interleaved
  across-down) or at or before it (interleaved down-across); likewise for down
  entries with the directions exchanged. The order is the requested one, or
  interleaved across-down by default.
\<close>

theorem clues_assigned_or_empty:
  "((\<exists>p. parsePuz toUpperCase bytes opts = Inr p) \<longleftrightarrow>
      0x30 \<le> length bytes \<and> headerWidth bytes \<noteq> 0 \<and> headerHeight bytes \<noteq> 0 \<and>
      0x34 + 2 * headerWidth bytes * headerHeight bytes \<le> length bytes \<and>
      3 + headerNumClues bytes \<le> nulCount bytes (0x34 + 2 * headerWidth bytes * headerHeight bytes)) \<and>
   (\<forall>puz. parsePuz toUpperCase bytes opts = Inr puz \<longrightarrow>
      clueOrder puz = (case opts of None \<Rightarrow> InterleavedAD | Some ord \<Rightarrow> ord) \<and>
      length (cluesRaw puz) = headerNumClues bytes \<and>
      (\<forall>i<length (across puz).
         clue (across puz ! i) =
           arrGet [] (cluesRaw puz)
             (case clueOrder puz of
                AcrossDown \<Rightarrow> i
              | DownAcross \<Rightarrow> length (down puz) + i
              | InterleavedAD \<Rightarrow>
                  i + length (filter (\<lambda>d. firstCell d < firstCell (across puz ! i)) (down puz))
              | InterleavedDA \<Rightarrow>
                  i + length (filter (\<lambda>d. firstCell d \<le> firstCell (across puz ! i)) (down puz)))) \<and>
      (\<forall>j<length (down puz).
         clue (down puz ! j) =
           arrGet [] (cluesRaw puz)
             (case clueOrder puz of
                AcrossDown \<Rightarrow> length (across puz) + j
              | DownAcross \<Rightarrow> j
              | InterleavedAD \<Rightarrow>
                  j + length (filter (\<lambda>a. firstCell a \<le> firstCell (down puz ! j)) (across puz))
              | InterleavedDA \<Rightarrow>
                  j + length (filter (\<lambda>a. firstCell a < firstCell (down puz ! j)) (across puz)))) \<and>
      (\<forall>k\<ge>length (cluesRaw puz). arrGet [] (cluesRaw puz) k = []))"
proof -
  have "clueOrder puz = (case opts of None \<Rightarrow> InterleavedAD | Some ord \<Rightarrow> ord) \<and>
      length (cluesRaw puz) = headerNumClues bytes \<and>
      (\<forall>i<length (across puz).
         clue (across puz ! i) =
           arrGet [] (cluesRaw puz)
             (case clueOrder puz of
                AcrossDown \<Rightarrow> i
              | DownAcross \<Rightarrow> length (down puz) + i
              | InterleavedAD \<Rightarrow>
                  i + length (filter (\<lambda>d. firstCell d < firstCell (across puz ! i)) (down puz))
              | InterleavedDA \<Rightarrow>
                  i + length (filter (\<lambda>d. firstCell d \<le> firstCell (across puz ! i)) (down puz)))) \<and>
      (\<forall>j<length (down puz).
         clue (down puz ! j) =
           arrGet [] (cluesRaw puz)
             (case clueOrder puz of
                AcrossDown \<Rightarrow> length (across puz) + j
              | DownAcross \<Rightarrow> j
              | InterleavedAD \<Rightarrow>
                  j + length (filter (\<lambda>a. firstCell a \<le> firstCell (down puz ! j)) (across puz))
              | InterleavedDA \<Rightarrow>
                  j + length (filter (\<lambda>a. firstCell a < firstCell (down puz ! j)) (across puz)))) \<and>
      (\<forall>k\<ge>length (cluesRaw puz). arrGet [] (cluesRaw puz) k = [])"
    if p: "parsePuz toUpperCase bytes opts = Inr puz" for puz
  proof -
    note wf = parsePuz_wellFormed [OF p]
    note c = parsePuz_clues [OF p]
    note s = wellFormed_slots [OF wf]
    have a: "acrossSlot (clueOrder puz) (width puz) (height puz) (grid puz)
                (length (across puz)) (length (down puz)) i =
             (case clueOrder puz of
                AcrossDown \<Rightarrow> i
              | DownAcross \<Rightarrow> length (down puz) + i
              | InterleavedAD \<Rightarrow>
                  i + length (filter (\<lambda>d. firstCell d < firstCell (across puz ! i)) (down puz))
              | InterleavedDA \<Rightarrow>
                  i + length (filter (\<lambda>d. firstCell d \<le> firstCell (across puz ! i)) (down puz)))"
      if "i < length (across puz)" for i
      using s(1,2) [OF that] by (simp add: acrossSlot_def split: ClueOrder.splits)
    have d: "downSlot (clueOrder puz) (width puz) (height puz) (grid puz)
                (length (across puz)) (length (down puz)) j =
             (case clueOrder puz of
                AcrossDown \<Rightarrow> length (across puz) + j
              | DownAcross \<Rightarrow> j
              | InterleavedAD \<Rightarrow>
                  j + length (filter (\<lambda>a. firstCell a \<le> firstCell (down puz ! j)) (across puz))
              | InterleavedDA \<Rightarrow>
                  j + length (filter (\<lambda>a. firstCell a < firstCell (down puz ! j)) (across puz)))"
      if "j < length (down puz)" for j
      using s(3,4) [OF that] by (simp add: downSlot_def split: ClueOrder.splits)
    show ?thesis
      using c(1,2) c(3) c(4) a d by (simp add: arrGet_def)
  qed
  then show ?thesis using parsePuz_Inr [of toUpperCase bytes opts] by blast
qed

lemma parsePuz_puzABCda: "parsePuz asciiUpper puzABC (Some InterleavedDA) = Inr parsedABCda"
  by code_simp

text \<open>
  C3 on the 3 by 1 grid \<open>ABC\<close> with the one clue "Test" and four entries. Under
  across-down the across entry has the clue "Test" and the three down entries the
  empty clue; under interleaved down-across the first down entry has the clue "Test"
  and the across entry and the other down entries the empty clue.
\<close>

theorem clues_assigned_or_empty_witness:
  "(\<exists>p. parsePuz asciiUpper puzABC (Some AcrossDown) = Inr p) \<and>
   cluesRaw parsedABC = [''Test''] \<and>
   length (across parsedABC) = 1 \<and> length (down parsedABC) = 3 \<and>
   clue (across parsedABC ! 0) = ''Test'' \<and>
   clue (down parsedABC ! 0) = [] \<and> clue (down parsedABC ! 1) = [] \<and>
   clue (down parsedABC ! 2) = [] \<and>
   (\<exists>p. parsePuz asciiUpper puzABC (Some InterleavedDA) = Inr p) \<and>
   clue (down parsedABCda ! 0) = ''Test'' \<and> clue (across parsedABCda ! 0) = [] \<and>
   clue (down parsedABCda ! 1) = [] \<and> clue (down parsedABCda ! 2) = []"
proof -
  note t = clues_assigned_or_empty [of asciiUpper puzABC "Some AcrossDown",
      THEN conjunct2, rule_format, OF parsePuz_puzABC]
  note u = clues_assigned_or_empty [of asciiUpper puzABC "Some InterleavedDA",
      THEN conjunct2, rule_format, OF parsePuz_puzABCda]
  have v: "cluesRaw parsedABC = [''Test'']" "length (across parsedABC) = 1"
    "length (down parsedABC) = 3"
    by code_simp+
  have w: "cluesRaw parsedABCda = [''Test'']" "length (across parsedABCda) = 1"
    "length (down parsedABCda) = 3"
    "map firstCell (across parsedABCda) = [0]" "map firstCell (down parsedABCda) = [0, 1, 2]"
    by code_simp+
  have o: "clueOrder parsedABC = AcrossDown" "clueOrder parsedABCda = InterleavedDA"
    using t u by simp_all
  have ta: "clue (across parsedABC ! i) = arrGet [] (cluesRaw parsedABC) i"
    if "i < length (across parsedABC)" for i
    using t that by (simp add: o)
  have td: "clue (down parsedABC ! j) = arrGet [] (cluesRaw parsedABC) (length (across parsedABC) + j)"
    if "j < length (down parsedABC)" for j
    using t that by (simp add: o)
  have c1: "clue (across parsedABC ! 0) = ''Test''" 
    using ta [of 0] by (simp add: v arrGet_def)
  have c2: "clue (down parsedABC ! 0) = []" "clue (down parsedABC ! 1) = []"
    "clue (down parsedABC ! 2) = []"
    using td [of 0] td [of 1] td [of 2] by (simp_all add: v arrGet_def)
  have ua: "clue (across parsedABCda ! i) = arrGet [] (cluesRaw parsedABCda)
              (i + length (filter (\<lambda>d. firstCell d \<le> firstCell (across parsedABCda ! i)) (down parsedABCda)))"
    if "i < length (across parsedABCda)" for i
    using u that by (simp add: o)
  have ud: "clue (down parsedABCda ! j) = arrGet [] (cluesRaw parsedABCda)
              (j + length (filter (\<lambda>a. firstCell a < firstCell (down parsedABCda ! j)) (across parsedABCda)))"
    if "j < length (down parsedABCda)" for j
    using u that by (simp add: o)
  have d0: "length (filter (\<lambda>a. firstCell a < firstCell (down parsedABCda ! 0)) (across parsedABCda)) = 0"
    by code_simp
  have d3: "clue (down parsedABCda ! 0) = ''Test''"
    using ud [of 0] by (simp add: w d0 arrGet_def)
  have d4: "clue (down parsedABCda ! 1) = []" "clue (down parsedABCda ! 2) = []"
    using ud [of 1] ud [of 2] by (simp_all add: w arrGet_def)
  have a0: "length (filter (\<lambda>d. firstCell d \<le> firstCell (across parsedABCda ! 0)) (down parsedABCda)) = 1"
    by code_simp
  have d5: "clue (across parsedABCda ! 0) = []"
    using ua [of 0] by (simp add: w a0 arrGet_def)
  have e: "\<exists>p. parsePuz asciiUpper puzABC (Some AcrossDown) = Inr p"
    "\<exists>p. parsePuz asciiUpper puzABC (Some InterleavedDA) = Inr p"
    using parsePuz_puzABC parsePuz_puzABCda by blast+
  show ?thesis using e v c1 c2 d3 d4 d5 by simp
qed

end
